theory Spec2Isabelle
  imports Complex_Main "HOL-Library.Signed_Division" "HOL-Library.Multiset" "HOL-Library.Sublist"
begin

section \<open>Calendar arithmetic of the \<^verbatim>\<open>time\<close> package\<close>

text \<open>
  Every \<^verbatim>\<open>time.Time\<close> the programs build is a UTC instant. An instant is modelled by
  the number of nanoseconds since 0001-01-01 00:00:00 UTC of the proleptic Gregorian
  calendar, the day on which Go's absolute day count is congruent to a Monday. Go's
  \<^verbatim>\<open>int\<close> is an unbounded \<open>int\<close> here: the model covers the years for which the
  64-bit arithmetic of \<^verbatim>\<open>time.Date\<close> does not wrap.
\<close>

type_synonym Time = int

definition nsPerDay :: int where
  "nsPerDay = 86400 * 1000000000"

definition isLeap :: "int \<Rightarrow> bool" where
  "isLeap year = (year mod 4 = 0 \<and> (year mod 100 \<noteq> 0 \<or> year mod 400 = 0))"

text \<open>\<^verbatim>\<open>daysBefore[m]\<close>: the days of a non-leap year before month \<open>m + 1\<close>.\<close>

definition daysBefore :: "int \<Rightarrow> int" where
  "daysBefore m =
     [0, 31, 59, 90, 120, 151, 181, 212, 243, 273, 304, 334, 365] ! nat m"

text \<open>Days from the epoch to January 1 of \<open>year\<close>.\<close>

definition daysSinceEpoch :: "int \<Rightarrow> int" where
  "daysSinceEpoch year =
     (let y = year - 1 in 365 * y + y div 4 - y div 100 + y div 400)"

text \<open>
  \<^verbatim>\<open>time.Date(year, month, day, 0, 0, 0, 0, time.UTC)\<close>. The month is normalised into
  1..12 with the overflow carried into the year; the day is not range-checked, it is
  added to the day count (day 0 is the last day of the month before).
\<close>

definition absDays :: "int \<Rightarrow> int \<Rightarrow> int \<Rightarrow> int" where
  "absDays year month day =
     (let m = month - 1;
          year' = year + m div 12;
          month' = m mod 12 + 1
      in daysSinceEpoch year' + daysBefore (month' - 1)
         + (if isLeap year' \<and> 3 \<le> month' then 1 else 0)
         + (day - 1))"

definition time_Date :: "int \<Rightarrow> int \<Rightarrow> int \<Rightarrow> Time" where
  "time_Date year month day = absDays year month day * nsPerDay"

text \<open>\<^verbatim>\<open>t.Weekday()\<close>, Sunday = 0, ..., Saturday = 6.\<close>

definition Weekday :: "Time \<Rightarrow> int" where
  "Weekday t = (t div nsPerDay + 1) mod 7"

definition Friday :: int where
  "Friday = 5"

text \<open>\<^verbatim>\<open>t.AddDate(0, 0, days)\<close>: the same time of day, \<open>days\<close> calendar days later.\<close>

definition AddDays :: "Time \<Rightarrow> int \<Rightarrow> Time" where
  "AddDays t days = t + days * nsPerDay"

text \<open>\<^verbatim>\<open>t.After(u)\<close>\<close>

definition After :: "Time \<Rightarrow> Time \<Rightarrow> bool" where
  "After t u = (u < t)"

section \<open>The third Friday (futures program)\<close>

text \<open>Go's \<^verbatim>\<open>%\<close> truncates towards zero: it is \<open>smod\<close>.\<close>

definition thirdFriday :: "int \<Rightarrow> int \<Rightarrow> Time" where
  "thirdFriday year month =
     (let third = time_Date year month 15;
          weekday = Weekday third;
          daysUntilFriday = (5 - weekday + 7) smod 7
      in AddDays third daysUntilFriday)"

section \<open>The CSV reader and the HTTP source (package \<^verbatim>\<open>history\<close>)\<close>

text \<open>
  \<^verbatim>\<open>encoding/csv\<close> splits the body into records; the body is modelled after that
  split, as the sequence of things the reader meets: a record with its fields, or a line
  it cannot parse. What \<^verbatim>\<open>Reader.Read\<close> adds on top is modelled in full: the end of
  input, and the field count check driven by \<^verbatim>\<open>FieldsPerRecord\<close>.
\<close>

datatype raw = Fields "string list" | Malformed

record Reader =
  FieldsPerRecord :: int
  input :: "raw list"

datatype read_result = Rec "string list" | EOF | ReadErr

definition Read :: "Reader \<Rightarrow> read_result \<times> Reader" where
  "Read r =
     (case input r of
        [] \<Rightarrow> (EOF, r)
      | Malformed # rest \<Rightarrow> (ReadErr, r\<lparr>input := rest\<rparr>)
      | Fields dst # rest \<Rightarrow>
          if 0 < FieldsPerRecord r then
            (if int (length dst) \<noteq> FieldsPerRecord r then (ReadErr, r\<lparr>input := rest\<rparr>)
             else (Rec dst, r\<lparr>input := rest\<rparr>))
          else if FieldsPerRecord r = 0 then
            (Rec dst, r\<lparr>FieldsPerRecord := int (length dst), input := rest\<rparr>)
          else (Rec dst, r\<lparr>input := rest\<rparr>))"

text \<open>\<^verbatim>\<open>http.Get\<close> returns a response or fails in the transport.\<close>

record Response =
  StatusCode :: int
  Body :: "raw list"

datatype http_result = Transport_failure | Resp Response

text \<open>
  The remote source. The URL of one \<^verbatim>\<open>Fetch\<close> varies in its \<^verbatim>\<open>start\<close> parameter
  only, so the source answers the \<open>k\<close>-th request (counted from 0) for row offset
  \<open>start\<close>.
\<close>

type_synonym source = "nat \<Rightarrow> nat \<Rightarrow> http_result"

text \<open>
  The conversions of the standard library are parameters: \<^verbatim>\<open>time.Parse\<close> with the
  layout \<^verbatim>\<open>2006-01-02 15:04:05\<close>, \<^verbatim>\<open>strconv.ParseFloat(s, 64)\<close> into a type \<open>'f\<close>
  of floats, \<^verbatim>\<open>strconv.ParseInt(s, 10, 64)\<close>. \<open>None\<close> is a returned error.
\<close>

record 'f conv =
  time_Parse :: "string \<Rightarrow> Time option"
  ParseFloat :: "string \<Rightarrow> 'f option"
  ParseInt :: "string \<Rightarrow> int option"

record 'f OHLCV =
  Date :: Time
  Open :: 'f
  High :: 'f
  Low :: 'f
  Close :: 'f
  Volume :: int

text \<open>
  The errors of \<^verbatim>\<open>Fetch\<close>, one per \<^verbatim>\<open>errors.Wrap\<close> message. \<open>Index_out_of_range\<close>
  is the run-time panic of \<^verbatim>\<open>row[i]\<close> with \<open>i\<close> beyond the row.
\<close>

datatype err =
    Http_get
  | Skip_csv_header_rows
  | Read_csv_header_columns
  | Read_csv_row
  | Parse_date_column
  | Parse_open_column
  | Parse_high_column
  | Parse_low_column
  | Parse_close_column
  | Parse_volume_column
  | Index_out_of_range

text \<open>
  Modelled from the spec: the error taxonomy. The code has a single error type; the spec
  calls a transport failure a NetworkError and a failure of the CSV structure or of a
  cell conversion a ParseError.
\<close>

datatype error_class = NetworkError | ParseError | Panic

fun classify :: "err \<Rightarrow> error_class" where
  "classify Http_get = NetworkError"
| "classify Index_out_of_range = Panic"
| "classify _ = ParseError"

text \<open>
  \<^verbatim>\<open>for indx, name := range column { columns[name] = indx }\<close>: a later column of the
  same name overwrites an earlier one.
\<close>

fun columns_from :: "nat \<Rightarrow> string list \<Rightarrow> (string \<rightharpoonup> nat) \<Rightarrow> (string \<rightharpoonup> nat)" where
  "columns_from indx [] columns = columns"
| "columns_from indx (name # rest) columns = columns_from (indx + 1) rest (columns(name \<mapsto> indx))"

definition columns_of :: "string list \<Rightarrow> (string \<rightharpoonup> nat)" where
  "columns_of column = columns_from 0 column Map.empty"

text \<open>\<^verbatim>\<open>columns[name]\<close>: a Go map yields the zero value for a missing key.\<close>

definition col :: "(string \<rightharpoonup> nat) \<Rightarrow> string \<Rightarrow> nat" where
  "col columns name = (case columns name of None \<Rightarrow> 0 | Some indx \<Rightarrow> indx)"

text \<open>\<^verbatim>\<open>row[columns[name]]\<close>\<close>

definition cell :: "string list \<Rightarrow> (string \<rightharpoonup> nat) \<Rightarrow> string \<Rightarrow> err + string" where
  "cell row columns name =
     (if col columns name < length row then Inr (row ! col columns name)
      else Inl Index_out_of_range)"

definition bind_err :: "err + 'a \<Rightarrow> ('a \<Rightarrow> err + 'b) \<Rightarrow> err + 'b" where
  "bind_err x f = (case x of Inl e \<Rightarrow> Inl e | Inr v \<Rightarrow> f v)"

definition or_err :: "'a option \<Rightarrow> err \<Rightarrow> err + 'a" where
  "or_err x e = (case x of None \<Rightarrow> Inl e | Some v \<Rightarrow> Inr v)"

text \<open>The body of the row loop after \<^verbatim>\<open>reader.Read\<close>: six look-ups and conversions in order.\<close>

definition parse_row :: "'f conv \<Rightarrow> (string \<rightharpoonup> nat) \<Rightarrow> string list \<Rightarrow> err + 'f OHLCV" where
  "parse_row cv columns row =
     bind_err (cell row columns ''begin'') (\<lambda>s.
     bind_err (or_err (time_Parse cv s) Parse_date_column) (\<lambda>date.
     bind_err (cell row columns ''open'') (\<lambda>s.
     bind_err (or_err (ParseFloat cv s) Parse_open_column) (\<lambda>open.
     bind_err (cell row columns ''high'') (\<lambda>s.
     bind_err (or_err (ParseFloat cv s) Parse_high_column) (\<lambda>high.
     bind_err (cell row columns ''low'') (\<lambda>s.
     bind_err (or_err (ParseFloat cv s) Parse_low_column) (\<lambda>low.
     bind_err (cell row columns ''close'') (\<lambda>s.
     bind_err (or_err (ParseFloat cv s) Parse_close_column) (\<lambda>close.
     bind_err (cell row columns ''volume'') (\<lambda>s.
     bind_err (or_err (ParseInt cv s) Parse_volume_column) (\<lambda>volume.
     Inr \<lparr>Date = date, Open = open, High = high, Low = low, Close = close,
          Volume = volume\<rparr>))))))))))))"

text \<open>
  The inner loop: read rows to the end of the body, appending to \<open>result\<close> and counting
  \<open>batchSize\<close>. The model returns the two variables as they are when the loop is left,
  with the error that left it, if any.
\<close>

function read_rows ::
  "'f conv \<Rightarrow> (string \<rightharpoonup> nat) \<Rightarrow> Reader \<Rightarrow> 'f OHLCV list \<Rightarrow> nat
     \<Rightarrow> 'f OHLCV list \<times> nat \<times> err option" where
  "read_rows cv columns reader result batchSize =
     (case Read reader of
        (EOF, _) \<Rightarrow> (result, batchSize, None)
      | (ReadErr, _) \<Rightarrow> (result, batchSize, Some Read_csv_row)
      | (Rec row, reader') \<Rightarrow>
          (case parse_row cv columns row of
             Inl e \<Rightarrow> (result, batchSize, Some e)
           | Inr ohlcv \<Rightarrow> read_rows cv columns reader' (result @ [ohlcv]) (batchSize + 1)))"
  by pat_completeness auto
termination
  by (relation "measure (\<lambda>(cv, columns, reader, result, batchSize). length (input reader))")
     (auto simp: Read_def split: list.splits raw.splits if_splits)

declare read_rows.simps [simp del]

text \<open>
  One pass of the outer loop up to the page size test: the request, the banner line that
  is skipped, the line of column names, the rows. The status code of the response is
  not read. Before the row loop \<open>batchSize\<close> is not yet declared; the model gives 0.
\<close>

definition fetch_page ::
  "'f conv \<Rightarrow> http_result \<Rightarrow> 'f OHLCV list \<Rightarrow> 'f OHLCV list \<times> nat \<times> err option" where
  "fetch_page cv got result =
     (case got of
        Transport_failure \<Rightarrow> (result, 0, Some Http_get)
      | Resp resp \<Rightarrow>
          (case Read \<lparr>FieldsPerRecord = 0, input = Body resp\<rparr> of
             (Rec _, reader) \<Rightarrow>
               (case Read (reader\<lparr>FieldsPerRecord := 0\<rparr>) of
                  (Rec column, reader') \<Rightarrow> read_rows cv (columns_of column) reader' result 0
                | _ \<Rightarrow> (result, 0, Some Read_csv_header_columns))
           | _ \<Rightarrow> (result, 0, Some Skip_csv_header_rows)))"

text \<open>
  \<^verbatim>\<open>Fetcher.Fetch\<close>. The loop has no bound, so it is a partial function: \<open>None\<close> is
  a call that never returns. A returning call gives the row offsets it requested, in
  order, then Go's pair of the result slice and the error. On an error the rows read
  so far are dropped: \<^verbatim>\<open>return nil, err\<close>, and \<^verbatim>\<open>nil\<close> is the empty list.
\<close>

partial_function (option) Fetch_loop ::
  "'f conv \<Rightarrow> source \<Rightarrow> nat list \<Rightarrow> nat \<Rightarrow> 'f OHLCV list
     \<Rightarrow> (nat list \<times> 'f OHLCV list \<times> err option) option" where
  "Fetch_loop cv src requests start result =
     (case fetch_page cv (src (length requests) start) result of
        (result', batchSize, failure) \<Rightarrow>
          (case failure of
             Some e \<Rightarrow> Some (requests @ [start], [], Some e)
           | None \<Rightarrow>
               if batchSize < 500 then Some (requests @ [start], result', None)
               else Fetch_loop cv src (requests @ [start]) (start + batchSize) result'))"

definition Fetch :: "'f conv \<Rightarrow> source \<Rightarrow> (nat list \<times> 'f OHLCV list \<times> err option) option" where
  "Fetch cv src = Fetch_loop cv src [] 0 []"

fun offset_at :: "'f conv \<Rightarrow> source \<Rightarrow> nat \<Rightarrow> nat" where
  "offset_at cv src 0 = 0"
| "offset_at cv src (Suc k) =
     offset_at cv src k + fst (snd (fetch_page cv (src k (offset_at cv src k)) []))"

definition page_at :: "'f conv \<Rightarrow> source \<Rightarrow> nat \<Rightarrow> 'f OHLCV list \<times> nat \<times> err option" where
  "page_at cv src k = fetch_page cv (src k (offset_at cv src k)) []"

definition full_page :: "'f OHLCV list \<times> nat \<times> err option \<Rightarrow> bool" where
  "full_page page = (snd (snd page) = None \<and> 500 \<le> fst (snd page))"

definition rows_upto :: "'f conv \<Rightarrow> source \<Rightarrow> nat \<Rightarrow> 'f OHLCV list" where
  "rows_upto cv src k = concat (map (\<lambda>j. fst (page_at cv src j)) [0..<k])"

definition sample_conv :: "real conv" where
  "sample_conv =
     \<lparr>time_Parse = (\<lambda>s. if s = ''2024-01-09 10:00:00''
                         then Some (time_Date 2024 1 9 + 36000 * 1000000000) else None),
      ParseFloat = (\<lambda>s. if s = ''100'' then Some 100
                         else if s = ''101.5'' then Some (203 / 2) else None),
      ParseInt = (\<lambda>s. if s = ''100'' then Some 100 else None)\<rparr>"

definition sample_header :: "string list" where
  "sample_header =
     [''open'', ''close'', ''high'', ''low'', ''value'', ''volume'', ''begin'', ''end'']"

definition sample_row :: "string list" where
  "sample_row =
     [''100'', ''101.5'', ''101.5'', ''100'', ''100'', ''100'',
      ''2024-01-09 10:00:00'', ''2024-01-09 10:00:59'']"

definition sample_candle :: "real OHLCV" where
  "sample_candle =
     \<lparr>Date = time_Date 2024 1 9 + 36000 * 1000000000, Open = 100, High = 203 / 2,
      Low = 100, Close = 203 / 2, Volume = 100\<rparr>"

definition sample_body :: "nat \<Rightarrow> raw list" where
  "sample_body n = Fields [''candles''] # Fields sample_header # replicate n (Fields sample_row)"

definition sample_source :: "nat list \<Rightarrow> source" where
  "sample_source ns k start =
     (if k < length ns then Resp \<lparr>StatusCode = 200, Body = sample_body (ns ! k)\<rparr>
      else Transport_failure)"

definition sample_endless_source :: source where
  "sample_endless_source k start = Resp \<lparr>StatusCode = 200, Body = sample_body 500\<rparr>"

definition sample_broken_source :: source where
  "sample_broken_source k start =
     Resp \<lparr>StatusCode = 200, Body = sample_body 500 @ [Malformed]\<rparr>"

definition sample_status_source :: "int \<Rightarrow> source" where
  "sample_status_source code k start = Resp \<lparr>StatusCode = code, Body = sample_body 1\<rparr>"

definition expected :: "string list" where
  "expected = [''begin'', ''open'', ''high'', ''low'', ''close'', ''volume'']"

definition converts :: "'f conv \<Rightarrow> string \<Rightarrow> string \<Rightarrow> bool" where
  "converts cv name s =
     (if name = ''begin'' then time_Parse cv s \<noteq> None
      else if name = ''volume'' then ParseInt cv s \<noteq> None
      else ParseFloat cv s \<noteq> None)"

definition sample_bad_row :: "string list" where
  "sample_bad_row =
     [''100'', ''101.5'', ''101.5'', ''100'', ''100'', ''1e3'',
      ''2024-01-09 10:01:00'', ''2024-01-09 10:01:59'']"

definition sample_bad_volume_source :: source where
  "sample_bad_volume_source k start =
     Resp \<lparr>StatusCode = 200,
           Body = Fields [''candles''] # Fields sample_header
                  # [Fields sample_row, Fields sample_bad_row]\<rparr>"

definition sample_header_no_volume :: "string list" where
  "sample_header_no_volume = [''open'', ''close'', ''high'', ''low'', ''value'', ''begin'', ''end'']"

definition sample_row_no_volume :: "string list" where
  "sample_row_no_volume =
     [''100'', ''101.5'', ''101.5'', ''100'', ''100'',
      ''2024-01-09 10:00:00'', ''2024-01-09 10:00:59'']"

definition sample_no_volume_source :: source where
  "sample_no_volume_source k start =
     Resp \<lparr>StatusCode = 200,
           Body = [Fields [''candles''], Fields sample_header_no_volume,
                   Fields sample_row_no_volume]\<rparr>"

definition permute :: "nat list \<Rightarrow> 'a list \<Rightarrow> 'a list" where
  "permute p xs = map (\<lambda>i. xs ! i) p"

fun permute_raw :: "nat list \<Rightarrow> raw \<Rightarrow> raw" where
  "permute_raw p (Fields row) = Fields (if length row = length p then permute p row else row)"
| "permute_raw p Malformed = Malformed"

definition permute_body :: "nat list \<Rightarrow> raw list \<Rightarrow> raw list" where
  "permute_body p body =
     (case body of
        banner # Fields column # rows \<Rightarrow>
          banner # Fields (permute p column) # map (permute_raw p) rows
      | _ \<Rightarrow> body)"

fun permute_response :: "nat list \<Rightarrow> http_result \<Rightarrow> http_result" where
  "permute_response p Transport_failure = Transport_failure"
| "permute_response p (Resp resp) = Resp (resp\<lparr>Body := permute_body p (Body resp)\<rparr>)"

fun header_of :: "http_result \<Rightarrow> string list option" where
  "header_of Transport_failure = None"
| "header_of (Resp resp) =
     (case Body resp of banner # Fields column # rows \<Rightarrow> Some column | _ \<Rightarrow> None)"

definition permuted_source :: "(nat \<Rightarrow> nat \<Rightarrow> nat list) \<Rightarrow> source \<Rightarrow> source" where
  "permuted_source P src k start = permute_response (P k start) (src k start)"

definition sample_reversed_source :: source where
  "sample_reversed_source = permuted_source (\<lambda>k start. [7, 6, 5, 4, 3, 2, 1, 0]) (sample_source [1])"

section \<open>The file system\<close>

text \<open>
  A file is the list of the strings written to it, in order. An open file is named by
  its path: the programs write through a handle at the end of the file only. \<open>denied\<close>
  holds the paths on which every operation fails with an error other than "does not
  exist". \<open>writable\<close> is the number of writes that still succeed: the write after them
  fails (the disk is full, the device is gone), also on a file that was created or opened
  without error. Each operation returns the file system after it and its error, if any.
\<close>

record FS =
  files :: "string \<rightharpoonup> string list"
  denied :: "string set"
  writable :: nat

datatype fs_err = ErrNotExist | ErrOther

definition os_Stat :: "FS \<Rightarrow> string \<Rightarrow> fs_err option" where
  "os_Stat fs name =
     (if name \<in> denied fs then Some ErrOther
      else if files fs name = None then Some ErrNotExist
      else None)"

definition os_IsNotExist :: "fs_err option \<Rightarrow> bool" where
  "os_IsNotExist e = (e = Some ErrNotExist)"

definition os_Create :: "FS \<Rightarrow> string \<Rightarrow> FS \<times> fs_err option" where
  "os_Create fs name =
     (if name \<in> denied fs then (fs, Some ErrOther)
      else (fs\<lparr>files := (files fs)(name \<mapsto> [])\<rparr>, None))"

text \<open>\<^verbatim>\<open>os.OpenFile(name, os.O_APPEND|os.O_WRONLY, 0644)\<close>\<close>

definition os_OpenFile :: "FS \<Rightarrow> string \<Rightarrow> FS \<times> fs_err option" where
  "os_OpenFile fs name =
     (if name \<in> denied fs then (fs, Some ErrOther)
      else if files fs name = None then (fs, Some ErrNotExist)
      else (fs, None))"

definition os_Remove :: "FS \<Rightarrow> string \<Rightarrow> FS \<times> fs_err option" where
  "os_Remove fs name =
     (if name \<in> denied fs then (fs, Some ErrOther)
      else if files fs name = None then (fs, Some ErrNotExist)
      else (fs\<lparr>files := (files fs)(name := None)\<rparr>, None))"

definition WriteString :: "FS \<Rightarrow> string \<Rightarrow> string \<Rightarrow> FS \<times> fs_err option" where
  "WriteString fs name s =
     (case files fs name of
        None \<Rightarrow> (fs, Some ErrOther)
      | Some content \<Rightarrow>
          if name \<in> denied fs \<or> writable fs = 0 then (fs, Some ErrOther)
          else (fs\<lparr>files := (files fs)(name \<mapsto> content @ [s]),
                   writable := writable fs - 1\<rparr>, None))"

definition header :: string where
  "header = ''<DATE>,<TIME>,<OPEN>,<HIGH>,<LOW>,<CLOSE>,<VOL>'' @ [CHR 0x0A]"

section \<open>The workers of the two programs\<close>

text \<open>One call of \<open>Fetch\<close>: the ticker and the two dates; the other arguments are constants.\<close>

record Period =
  ticker :: string
  startDate :: Time
  endDate :: Time

text \<open>
  What a worker's run depends on besides the file system: \<open>now year month\<close> is the
  reading of \<^verbatim>\<open>time.Now()\<close> when that month is examined, \<open>fetch\<close> is what each call
  of \<open>Fetch\<close> returned, \<open>line\<close> is the \<^verbatim>\<open>fmt.Sprintf\<close> of one record with its newline.
\<close>

record 'f env =
  now :: "int \<Rightarrow> int \<Rightarrow> Time"
  fetch :: "Period \<Rightarrow> 'f OHLCV list \<times> err option"
  line :: "'f OHLCV \<Rightarrow> string"

datatype werr =
    Failed_to_create_or_open_file fs_err
  | Failed_to_get_OHLC_data err
  | Failed_to_write_to_file fs_err
  | Failed_to_remove_existing_file fs_err
  | Failed_to_create_file fs_err
  | Failed_to_write_header fs_err
  | Failed_to_open_file_for_appending fs_err

subsection \<open>Shares\<close>

definition createOrAppendFile :: "FS \<Rightarrow> string \<Rightarrow> bool \<Rightarrow> FS \<times> fs_err option" where
  "createOrAppendFile fs fileName writeHeader =
     (if os_IsNotExist (os_Stat fs fileName) then
        (case os_Create fs fileName of
           (fs', Some e) \<Rightarrow> (fs', Some e)
         | (fs', None) \<Rightarrow>
             if writeHeader then WriteString fs' fileName header else (fs', None))
      else os_OpenFile fs fileName)"

fun writeDataToFile ::
  "('f OHLCV \<Rightarrow> string) \<Rightarrow> FS \<Rightarrow> string \<Rightarrow> 'f OHLCV list \<Rightarrow> FS \<times> fs_err option" where
  "writeDataToFile fmt fs file [] = (fs, None)"
| "writeDataToFile fmt fs file (ohlc # data) =
     (case WriteString fs file (fmt ohlc) of
        (fs', Some e) \<Rightarrow> (fs', Some e)
      | (fs', None) \<Rightarrow> writeDataToFile fmt fs' file data)"

text \<open>
  The period of one month. \<^verbatim>\<open>startDate.AddDate(0, 1, -1)\<close> is
  \<^verbatim>\<open>Date(year, month + 1, 1 - 1)\<close>, the day before the first of the next month.
\<close>

definition month_period :: "string \<Rightarrow> int \<Rightarrow> int \<Rightarrow> Period" where
  "month_period stock year month =
     \<lparr>ticker = stock, startDate = time_Date year month 1,
      endDate = time_Date year (month + 1) (1 - 1)\<rparr>"

text \<open>The two nested loops, as the list of their iterations in order.\<close>

definition year_months :: "int \<Rightarrow> int \<Rightarrow> (int \<times> int) list" where
  "year_months yearStart yearEnd =
     concat (map (\<lambda>year. map (\<lambda>month. (year, month)) [1..12]) [yearStart..yearEnd])"

text \<open>The loop body, with the periods fetched so far as a trace.\<close>

fun stock_months ::
  "'f env \<Rightarrow> string \<Rightarrow> string \<Rightarrow> (int \<times> int) list \<Rightarrow> FS \<Rightarrow> Period list
     \<Rightarrow> FS \<times> Period list \<times> werr option" where
  "stock_months env stock file [] fs fetched = (fs, fetched, None)"
| "stock_months env stock file ((year, month) # rest) fs fetched =
     (let p = month_period stock year month in
      if After (startDate p) (now env year month) then
        stock_months env stock file rest fs fetched
      else
        (case fetch env p of
           (data, Some e) \<Rightarrow> (fs, fetched @ [p], Some (Failed_to_get_OHLC_data e))
         | (data, None) \<Rightarrow>
             if 0 < length data then
               (case writeDataToFile (line env) fs file data of
                  (fs', Some e) \<Rightarrow> (fs', fetched @ [p], Some (Failed_to_write_to_file e))
                | (fs', None) \<Rightarrow> stock_months env stock file rest fs' (fetched @ [p]))
             else stock_months env stock file rest fs (fetched @ [p])))"

text \<open>The worker of one stock in \<^verbatim>\<open>ProcessStocks\<close>.\<close>

definition stock_file :: "string \<Rightarrow> string" where
  "stock_file stock = ''moex_data/'' @ stock @ ''.txt''"

definition stock_worker ::
  "'f env \<Rightarrow> int \<Rightarrow> int \<Rightarrow> string \<Rightarrow> FS \<Rightarrow> FS \<times> Period list \<times> werr option" where
  "stock_worker env yearStart yearEnd stock fs =
     (case createOrAppendFile fs (stock_file stock) True of
        (fs', Some e) \<Rightarrow> (fs', [], Some (Failed_to_create_or_open_file e))
      | (fs', None) \<Rightarrow>
          stock_months env stock (stock_file stock) (year_months yearStart yearEnd) fs' [])"

subsection \<open>Futures\<close>

definition codes :: "string list" where
  "codes = [''H'', ''M'', ''U'', ''Z'']"

text \<open>The verb \<^verbatim>\<open>%d\<close> of \<^verbatim>\<open>fmt.Sprintf\<close>.\<close>

fun digits :: "nat \<Rightarrow> string" where
  "digits n = (if n < 10 then [char_of (48 + n)] else digits (n div 10) @ [char_of (48 + n mod 10)])"

declare digits.simps [simp del]

definition Sprintf_d :: "int \<Rightarrow> string" where
  "Sprintf_d n = (if n < 0 then ''-'' @ digits (nat (- n)) else digits (nat n))"

text \<open>The futures program's \<^verbatim>\<open>createOrAppendFile\<close> writes no header.\<close>

definition createOrAppendFile_futures :: "FS \<Rightarrow> string \<Rightarrow> FS \<times> fs_err option" where
  "createOrAppendFile_futures fs fileName =
     (if os_IsNotExist (os_Stat fs fileName) then os_Create fs fileName
      else os_OpenFile fs fileName)"

text \<open>The period and the ticker of quarter \<open>i\<close> of year \<open>y\<close>.\<close>

definition quarter_period :: "string \<Rightarrow> int \<Rightarrow> nat \<Rightarrow> string \<Rightarrow> Period" where
  "quarter_period contract y i code =
     (let m = int i * 3 + 3;
          yBegin = y;
          mBegin = m - 3;
          (mBegin, yBegin) = (if mBegin = 0 then (12, yBegin - 1) else (mBegin, yBegin));
          beginDate = AddDays (thirdFriday yBegin mBegin) (- 1);
          endDate = AddDays (thirdFriday y m) (- 2)
      in \<lparr>ticker = contract @ code @ Sprintf_d (y smod 10),
          startDate = beginDate, endDate = endDate\<rparr>)"

definition year_quarters :: "int \<Rightarrow> int \<Rightarrow> (int \<times> nat \<times> string) list" where
  "year_quarters yearBegin yearEnd =
     concat (map (\<lambda>y. map (\<lambda>(i, code). (y, i, code)) (enumerate 0 codes))
                 [yearBegin..yearEnd - 1])"

fun contract_quarters ::
  "'f env \<Rightarrow> string \<Rightarrow> string \<Rightarrow> (int \<times> nat \<times> string) list \<Rightarrow> FS \<Rightarrow> Period list
     \<Rightarrow> FS \<times> Period list \<times> werr option" where
  "contract_quarters env contract fileName [] fs fetched = (fs, fetched, None)"
| "contract_quarters env contract fileName ((y, i, code) # rest) fs fetched =
     (let p = quarter_period contract y i code in
      case fetch env p of
        (data, Some e) \<Rightarrow> (fs, fetched @ [p], Some (Failed_to_get_OHLC_data e))
      | (data, None) \<Rightarrow>
          (case createOrAppendFile_futures fs fileName of
             (fs', Some e) \<Rightarrow> (fs', fetched @ [p], Some (Failed_to_open_file_for_appending e))
           | (fs', None) \<Rightarrow>
               (case writeDataToFile (line env) fs' fileName data of
                  (fs'', Some e) \<Rightarrow> (fs'', fetched @ [p], Some (Failed_to_write_to_file e))
                | (fs'', None) \<Rightarrow>
                    contract_quarters env contract fileName rest fs'' (fetched @ [p]))))"

text \<open>The worker of one contract in \<^verbatim>\<open>ProcessContracts\<close>.\<close>

definition contract_file :: "string \<Rightarrow> string \<Rightarrow> string" where
  "contract_file currentDir contract = currentDir @ ''/'' @ contract @ ''.txt''"

text \<open>The worker after \<^verbatim>\<open>os.Remove\<close>: the fresh file, its header, the loop.\<close>

definition contract_run ::
  "'f env \<Rightarrow> string \<Rightarrow> string \<Rightarrow> int \<Rightarrow> int \<Rightarrow> FS \<Rightarrow> FS \<times> Period list \<times> werr option" where
  "contract_run env contract fileName yearBegin yearEnd fs =
     (case os_Create fs fileName of
        (fs', Some e) \<Rightarrow> (fs', [], Some (Failed_to_create_file e))
      | (fs', None) \<Rightarrow>
          (case WriteString fs' fileName header of
             (fs'', Some e) \<Rightarrow> (fs'', [], Some (Failed_to_write_header e))
           | (fs'', None) \<Rightarrow>
               contract_quarters env contract fileName
                 (year_quarters yearBegin yearEnd) fs'' []))"

definition contract_worker ::
  "'f env \<Rightarrow> string \<Rightarrow> int \<Rightarrow> int \<Rightarrow> string \<Rightarrow> FS \<Rightarrow> FS \<times> Period list \<times> werr option" where
  "contract_worker env currentDir yearBegin yearEnd contract fs =
     (let fileName = contract_file currentDir contract in
      case os_Remove fs fileName of
        (fs', Some e) \<Rightarrow>
          if \<not> os_IsNotExist (Some e) then (fs', [], Some (Failed_to_remove_existing_file e))
          else contract_run env contract fileName yearBegin yearEnd fs'
      | (fs', None) \<Rightarrow> contract_run env contract fileName yearBegin yearEnd fs')"

section \<open>Notions of the statements\<close>

text \<open>
  The day of the month of \<open>thirdFriday y m\<close>, and the day count of the first day of the
  month with index \<open>k = 12 * year + (month - 1)\<close>.
\<close>

definition thirdFriday_day :: "int \<Rightarrow> int \<Rightarrow> int" where
  "thirdFriday_day y m = 15 + (12 - (absDays y m 1 + 15) mod 7) mod 7"

definition first_day :: "int \<Rightarrow> int" where
  "first_day k = absDays 0 (k + 1) 1"

text \<open>The three results of a worker's run: the file system, the calls of \<open>Fetch\<close>, the error.\<close>

definition fs_of :: "FS \<times> Period list \<times> werr option \<Rightarrow> FS" where
  "fs_of r = fst r"

definition fetched_of :: "FS \<times> Period list \<times> werr option \<Rightarrow> Period list" where
  "fetched_of r = fst (snd r)"

definition error_of :: "FS \<times> Period list \<times> werr option \<Rightarrow> werr option" where
  "error_of r = snd (snd r)"

text \<open>
  The months the shares worker does not skip, the lines a worker writes for the periods it
  fetched, and the periods of a list of quarters.
\<close>

definition stock_periods :: "'f env \<Rightarrow> string \<Rightarrow> (int \<times> int) list \<Rightarrow> Period list" where
  "stock_periods env stock yms =
     map (\<lambda>(year, month). month_period stock year month)
       (filter (\<lambda>(year, month). \<not> After (time_Date year month 1) (now env year month)) yms)"

definition written_lines :: "'f env \<Rightarrow> Period list \<Rightarrow> string list" where
  "written_lines env ps =
     concat (map (\<lambda>p. case fetch env p of
                         (data, None) \<Rightarrow> map (line env) data
                       | (data, Some e) \<Rightarrow> []) ps)"

definition contract_periods :: "string \<Rightarrow> (int \<times> nat \<times> string) list \<Rightarrow> Period list" where
  "contract_periods contract yqs = map (\<lambda>(y, i, code). quarter_period contract y i code) yqs"

text \<open>
  A run on 2025-06-01 in which every fetch returns one record, on a file system with no
  file, with an old file of the stock, and (below) with no file and no write left.
\<close>

definition sample_env :: "real env" where
  "sample_env =
     \<lparr>now = (\<lambda>year month. time_Date 2025 6 1),
      fetch = (\<lambda>p. ([sample_candle], None)),
      line = (\<lambda>ohlc. ''20240109,10:00:00,100,101.5,100,101.5,100'' @ [CHR 0x0A])\<rparr>"

definition sample_fs :: FS where
  "sample_fs = \<lparr>files = Map.empty, denied = {}, writable = 1000\<rparr>"

definition sample_old_fs :: FS where
  "sample_old_fs =
     \<lparr>files = [stock_file ''SBER'' \<mapsto> [header, ''old line'']], denied = {}, writable = 1000\<rparr>"

text \<open>The day count of the third Friday of the month with index \<open>k\<close>.\<close>

definition expiry :: "int \<Rightarrow> int" where
  "expiry k = first_day k + 14 + (12 - (first_day k + 15) mod 7) mod 7"

text \<open>
  The file system after the strings \<open>ls\<close> are written one by one to a file that holds
  \<open>content\<close>: the writes succeed as long as \<open>writable\<close> allows.
\<close>

definition append_lines :: "FS \<Rightarrow> string \<Rightarrow> string list \<Rightarrow> string list \<Rightarrow> FS" where
  "append_lines fs file content ls =
     fs\<lparr>files := (files fs)(file \<mapsto> content @ take (writable fs) ls),
        writable := writable fs - length ls\<rparr>"

definition sample_full_fs :: FS where
  "sample_full_fs = \<lparr>files = Map.empty, denied = {}, writable = 0\<rparr>"

text \<open>The position of a month and of a quarter on the time line.\<close>

definition month_index :: "int \<times> int \<Rightarrow> int" where
  "month_index ym = 12 * fst ym + snd ym"

definition quarter_index :: "int \<times> nat \<times> string \<Rightarrow> int" where
  "quarter_index yq = 4 * fst yq + int (fst (snd yq))"

text \<open>
  The period of quarter \<open>i\<close> of year \<open>y\<close> in the words of the specification, to be compared
  with \<open>quarter_period\<close>, and the periods of the years from \<open>yearStart\<close> to \<open>yearEnd - 1\<close>.
\<close>

definition spec_quarter_period :: "string \<Rightarrow> int \<Rightarrow> nat \<Rightarrow> Period" where
  "spec_quarter_period symbol y i =
     (let code = [''H'', ''M'', ''U'', ''Z''] ! i;
          month = [3, 6, 9, 12] ! i;
          (previousYear, previousMonth) = (if i = 0 then (y - 1, 12) else (y, [3, 6, 9, 12] ! (i - 1)))
      in \<lparr>ticker = symbol @ code @ Sprintf_d (y mod 10),
          startDate = AddDays (thirdFriday previousYear previousMonth) (- 1),
          endDate = AddDays (thirdFriday y month) (- 2)\<rparr>)"

definition spec_quarter_periods :: "string \<Rightarrow> int \<Rightarrow> int \<Rightarrow> Period list" where
  "spec_quarter_periods symbol yearStart yearEnd =
     concat (map (\<lambda>y. map (spec_quarter_period symbol y) [0..<4]) [yearStart..yearEnd - 1])"

section \<open>Calendar facts\<close>

lemma nsPerDay_pos: "0 < nsPerDay"
  by (simp add: nsPerDay_def)

lemma absDays_day: "absDays y m d = absDays y m 1 + (d - 1)"
  by (simp add: absDays_def Let_def)

lemma Date_day: "time_Date y m d = time_Date y m 1 + (d - 1) * nsPerDay"
  by (simp add: time_Date_def absDays_day [of y m d] algebra_simps)

lemma Date_div_nsPerDay: "time_Date y m d div nsPerDay = absDays y m d"
  using nsPerDay_pos by (simp add: time_Date_def)

lemma Weekday_Date: "Weekday (time_Date y m d) = (absDays y m d + 1) mod 7"
  by (simp add: Weekday_def Date_div_nsPerDay)

lemma Weekday_range: "0 \<le> Weekday t \<and> Weekday t < 7"
  by (simp add: Weekday_def)

lemma smod_nonneg: "0 \<le> a \<Longrightarrow> 0 < b \<Longrightarrow> (a::int) smod b = a mod b"
  by (simp add: smod_int_alt_def sgn_if)

lemma thirdFriday_eq:
  "thirdFriday y m = time_Date y m (15 + (12 - Weekday (time_Date y m 15)) mod 7)"
proof -
  have "0 \<le> 5 - Weekday (time_Date y m 15) + 7"
    using Weekday_range [of "time_Date y m 15"] by simp
  then have "(5 - Weekday (time_Date y m 15) + 7) smod 7 = (12 - Weekday (time_Date y m 15)) mod 7"
    by (simp add: smod_nonneg)
  then show ?thesis
    by (simp add: thirdFriday_def Let_def AddDays_def Date_day [of y m "15 + _"]
        Date_day [of y m 15] algebra_simps)
qed

lemma Read_Rec_shorter:
  "Read reader = (Rec row, reader') \<Longrightarrow> length (input reader') < length (input reader)"
  by (auto simp: Read_def split: list.splits raw.splits if_splits)

lemma read_rows_acc:
  "read_rows cv cols rd result n =
     (result @ fst (read_rows cv cols rd [] 0), n + fst (snd (read_rows cv cols rd [] 0)),
      snd (snd (read_rows cv cols rd [] 0)))"
proof (induction rd arbitrary: result n rule: measure_induct_rule [where f = "\<lambda>rd. length (input rd)"])
  case (less reader)
  show ?case
  proof (cases "Read reader")
    case (Pair rr reader')
    show ?thesis
    proof (cases rr)
      case (Rec row)
      show ?thesis
      proof (cases "parse_row cv cols row")
        case (Inl e)
        then show ?thesis using Pair Rec
          by (simp add: read_rows.simps [of cv cols reader])
      next
        case (Inr c)
        have sh: "length (input reader') < length (input reader)"
          using Pair Rec Read_Rec_shorter by blast
        show ?thesis
          using Pair Rec Inr less [OF sh, of "result @ [c]" "n + 1"] less [OF sh, of "[c]" 1]
          by (simp add: read_rows.simps [of cv cols reader])
      qed
    qed (use Pair in \<open>simp_all add: read_rows.simps [of cv cols reader]\<close>)
  qed
qed

lemma read_rows_count:
  "fst (snd (read_rows cv cols rd [] 0)) = length (fst (read_rows cv cols rd [] 0))"
proof (induction rd rule: measure_induct_rule [where f = "\<lambda>rd. length (input rd)"])
  case (less reader)
  show ?case
  proof (cases "Read reader")
    case (Pair rr reader')
    show ?thesis
    proof (cases rr)
      case (Rec row)
      show ?thesis
      proof (cases "parse_row cv cols row")
        case (Inl e)
        then show ?thesis using Pair Rec
          by (simp add: read_rows.simps [of cv cols reader])
      next
        case (Inr c)
        have sh: "length (input reader') < length (input reader)"
          using Pair Rec Read_Rec_shorter by blast
        show ?thesis
          using Pair Rec Inr less [OF sh] read_rows_acc [of cv cols reader' "[c]" 1]
          by (simp add: read_rows.simps [of cv cols reader])
      qed
    qed (use Pair in \<open>simp_all add: read_rows.simps [of cv cols reader]\<close>)
  qed
qed

lemma fetch_page_failure:
  "snd (snd (fetch_page cv got result)) = snd (snd (fetch_page cv got []))"
  unfolding fetch_page_def
  by (auto split: http_result.splits prod.splits read_result.splits
      simp: read_rows_acc [of _ _ _ result 0])

lemma fetch_page_rows:
  "fst (fetch_page cv got result) = result @ fst (fetch_page cv got [])"
  unfolding fetch_page_def
  by (auto split: http_result.splits prod.splits read_result.splits
      simp: read_rows_acc [of _ _ _ result 0])

lemma fetch_page_size:
  "fst (snd (fetch_page cv got result)) = length (fst (fetch_page cv got []))"
  unfolding fetch_page_def
  by (auto split: http_result.splits prod.splits read_result.splits
      simp: read_rows_acc [of _ _ _ result 0] read_rows_count)

lemma fetch_page_acc:
  "fetch_page cv got result =
     (result @ fst (fetch_page cv got []), fst (snd (fetch_page cv got [])),
      snd (snd (fetch_page cv got [])))"
  using fetch_page_rows [of cv got result] fetch_page_size [of cv got result]
    fetch_page_size [of cv got "[]"] fetch_page_failure [of cv got result]
  by (cases "fetch_page cv got result") simp

lemma Fetch_loop_unfold:
  "fetch_page cv (src (length requests) start) result = (r, b, f) \<Longrightarrow>
   Fetch_loop cv src requests start result =
     (case f of
        Some e \<Rightarrow> Some (requests @ [start], [], Some e)
      | None \<Rightarrow>
          if b < 500 then Some (requests @ [start], r, None)
          else Fetch_loop cv src (requests @ [start]) (start + b) r)"
  by (subst Fetch_loop.simps) simp

lemma fetch_page_split:
  assumes "fetch_page cv got [] = (r0, b0, f0)"
  shows "fetch_page cv got result = (result @ r0, b0, f0)"
  using assms fetch_page_rows [of cv got result] fetch_page_size [of cv got result]
    fetch_page_size [of cv got "[]"] fetch_page_failure [of cv got result]
  by (cases "fetch_page cv got result") simp

lemma Fetch_loop_step_full:
  assumes "full_page (fetch_page cv (src (length requests) start) [])"
  shows "Fetch_loop cv src requests start result =
         Fetch_loop cv src (requests @ [start])
           (start + fst (snd (fetch_page cv (src (length requests) start) [])))
           (result @ fst (fetch_page cv (src (length requests) start) []))"
proof -
  obtain r0 b0 f0 where p0: "fetch_page cv (src (length requests) start) [] = (r0, b0, f0)"
    by (cases "fetch_page cv (src (length requests) start) []") auto
  show ?thesis
    using assms p0 Fetch_loop_unfold [of cv src requests start result, OF fetch_page_split [OF p0, of result]]
    by (simp add: full_page_def)
qed

lemma Fetch_loop_step_stop:
  assumes "\<not> full_page (fetch_page cv (src (length requests) start) [])"
  shows "Fetch_loop cv src requests start result =
         Some (requests @ [start],
               (if snd (snd (fetch_page cv (src (length requests) start) [])) = None
                then result @ fst (fetch_page cv (src (length requests) start) []) else []),
               snd (snd (fetch_page cv (src (length requests) start) [])))"
proof -
  obtain r0 b0 f0 where p0: "fetch_page cv (src (length requests) start) [] = (r0, b0, f0)"
    by (cases "fetch_page cv (src (length requests) start) []") auto
  show ?thesis
    using assms p0 Fetch_loop_unfold [of cv src requests start result, OF fetch_page_split [OF p0, of result]]
    by (auto simp: full_page_def split: option.splits)
qed

lemma Fetch_unroll:
  "(\<forall>j<k. full_page (page_at cv src j)) \<Longrightarrow>
   Fetch cv src =
     Fetch_loop cv src (map (offset_at cv src) [0..<k]) (offset_at cv src k) (rows_upto cv src k)"
proof (induction k)
  case 0
  then show ?case by (simp add: Fetch_def rows_upto_def)
next
  case (Suc k)
  have full: "full_page (fetch_page cv (src (length (map (offset_at cv src) [0..<k])) (offset_at cv src k)) [])"
    using Suc.prems by (simp add: page_at_def)
  have "Fetch cv src =
     Fetch_loop cv src (map (offset_at cv src) [0..<k]) (offset_at cv src k) (rows_upto cv src k)"
    using Suc by simp
  also have "\<dots> = Fetch_loop cv src (map (offset_at cv src) [0..<Suc k]) (offset_at cv src (Suc k))
      (rows_upto cv src (Suc k))"
    by (subst Fetch_loop_step_full [of cv src "map (offset_at cv src) [0..<k]" "offset_at cv src k", OF full])
       (simp add: rows_upto_def page_at_def)
  finally show ?case .
qed

lemma Fetch_stops:
  assumes "\<forall>j<k. full_page (page_at cv src j)" and "\<not> full_page (page_at cv src k)"
  shows "Fetch cv src =
     Some (map (offset_at cv src) [0..<Suc k],
           (if snd (snd (page_at cv src k)) = None then rows_upto cv src (Suc k) else []),
           snd (snd (page_at cv src k)))"
proof -
  have nf: "\<not> full_page (fetch_page cv (src (length (map (offset_at cv src) [0..<k])) (offset_at cv src k)) [])"
    using assms(2) by (simp add: page_at_def)
  show ?thesis
    by (subst Fetch_unroll [OF assms(1)],
        subst Fetch_loop_step_stop [of cv src "map (offset_at cv src) [0..<k]" "offset_at cv src k", OF nf])
       (simp add: rows_upto_def page_at_def)
qed

lemma Fetch_loop_diverges:
  assumes "Fetch_loop cv src requests start result = Some y"
  shows "start = offset_at cv src (length requests) \<longrightarrow>
         (\<forall>k. full_page (page_at cv src k)) \<longrightarrow> False"
  apply (rule Fetch_loop.raw_induct [where P = "\<lambda>cv src requests start result y.
           start = offset_at cv src (length requests) \<longrightarrow>
           (\<forall>k. full_page (page_at cv src k)) \<longrightarrow> False", OF _ assms])
  subgoal premises prems for loop cv src requests start result y
  proof (intro impI)
    assume st: "start = offset_at cv src (length requests)"
      and all: "\<forall>k. full_page (page_at cv src k)"
    let ?got = "src (length requests) start"
    have full: "full_page (fetch_page cv ?got [])"
      using st all by (simp add: page_at_def)
    obtain r b f where p: "fetch_page cv ?got result = (r, b, f)"
      by (cases "fetch_page cv ?got result") auto
    have rbf: "b = fst (snd (fetch_page cv ?got []))" "f = None" "500 \<le> b"
      using p full fetch_page_size [of cv ?got result]
        fetch_page_size [of cv ?got "[]"] fetch_page_failure [of cv ?got result]
      by (simp_all add: full_page_def)
    have "loop cv src (requests @ [start]) (start + b) r = Some y"
      using prems(2) p rbf by simp
    then show False
      using prems(1) [of cv src "requests @ [start]" "start + b" r y] st all rbf(1)
      by simp
  qed
  done

lemma Fetch_diverges: "\<forall>k. full_page (page_at cv src k) \<Longrightarrow> Fetch cv src = None"
  using Fetch_loop_diverges [of cv src "[]" 0 "[]"]
  by (cases "Fetch cv src") (auto simp: Fetch_def)

lemma columns_of_sample_header:
  "col (columns_of sample_header) ''begin'' = 6"
  "col (columns_of sample_header) ''open'' = 0"
  "col (columns_of sample_header) ''high'' = 2"
  "col (columns_of sample_header) ''low'' = 3"
  "col (columns_of sample_header) ''close'' = 1"
  "col (columns_of sample_header) ''volume'' = 5"
  by (simp_all add: columns_of_def sample_header_def col_def)

lemma parse_sample_row:
  "parse_row sample_conv (columns_of sample_header) sample_row = Inr sample_candle"
  by (simp add: parse_row_def cell_def columns_of_sample_header bind_err_def or_err_def
      sample_row_def sample_conv_def sample_candle_def)

lemma read_sample_rows:
  "read_rows sample_conv (columns_of sample_header)
     \<lparr>FieldsPerRecord = 8, input = replicate n (Fields sample_row)\<rparr> result b =
   (result @ replicate n sample_candle, b + n, None)"
proof (induction n arbitrary: result b)
  case 0
  show ?case by (subst read_rows.simps) (simp add: Read_def)
next
  case (Suc n)
  have len: "length sample_row = 8" by (simp add: sample_row_def)
  show ?case
    by (subst read_rows.simps)
       (simp add: Read_def len parse_sample_row Suc replicate_app_Cons_same)
qed

lemma sample_page:
  "fetch_page sample_conv (Resp \<lparr>StatusCode = st, Body = sample_body n\<rparr>) [] =
   (replicate n sample_candle, n, None)"
proof -
  have len: "length sample_header = 8" by (simp add: sample_header_def)
  show ?thesis
    by (simp add: fetch_page_def sample_body_def Read_def len read_sample_rows)
qed

lemma sample_page_at:
  "k < length ns \<Longrightarrow>
   page_at sample_conv (sample_source ns) k = (replicate (ns ! k) sample_candle, ns ! k, None)"
  by (simp add: page_at_def sample_source_def sample_page)

lemma sample_offset_Suc:
  "k < length ns \<Longrightarrow>
   offset_at sample_conv (sample_source ns) (Suc k) =
   offset_at sample_conv (sample_source ns) k + ns ! k"
  by (simp add: sample_source_def sample_page)

lemma offset_at_Suc_length:
  "offset_at cv src (Suc j) = offset_at cv src j + length (fst (page_at cv src j))"
  by (simp add: page_at_def fetch_page_size [of cv _ "[]"])

lemma length_rows_upto: "length (rows_upto cv src k) = offset_at cv src k"
proof (induction k)
  case 0
  show ?case by (simp add: rows_upto_def)
next
  case (Suc k)
  have "rows_upto cv src (Suc k) = rows_upto cv src k @ fst (page_at cv src k)"
    by (simp add: rows_upto_def)
  then show ?case
    using Suc offset_at_Suc_length [of cv src k] by simp
qed

text \<open>
  Claim C1. Pagination follows the count-based stop rule. When the pages before the
  \<open>k\<close>-th are complete (no error, at least 500 rows) and the \<open>k\<close>-th page parses to
  fewer than 500 rows, \<open>Fetch\<close> returns after exactly \<open>k + 1\<close> requests with all pages
  concatenated in request order; the requested offsets start at 0 and each is the one
  before plus the row count of the page before, so the total number of records is the
  offset after the last page.
\<close>

theorem Fetch_pagination:
  assumes "\<forall>j<k. full_page (page_at cv src j)"
    and "snd (snd (page_at cv src k)) = None"
    and "fst (snd (page_at cv src k)) < 500"
  shows "Fetch cv src =
           Some (map (offset_at cv src) [0..<Suc k], rows_upto cv src (Suc k), None)
         \<and> offset_at cv src 0 = 0
         \<and> (\<forall>j. offset_at cv src (Suc j) =
                  offset_at cv src j + length (fst (page_at cv src j)))
         \<and> length (rows_upto cv src (Suc k)) = offset_at cv src (Suc k)"
proof -
  have "\<not> full_page (page_at cv src k)"
    using assms(3) by (simp add: full_page_def)
  then have "Fetch cv src =
           Some (map (offset_at cv src) [0..<Suc k], rows_upto cv src (Suc k), None)"
    using Fetch_stops [OF assms(1)] assms(2) by simp
  then show ?thesis
    using offset_at_Suc_length [of cv src] length_rows_upto [of cv src "Suc k"] by simp
qed

theorem Fetch_pagination_witness:
  "(full_page (page_at sample_conv (sample_source [500, 0]) 0)
    \<and> page_at sample_conv (sample_source [500, 0]) 1 = ([], 0, None)
    \<and> Fetch sample_conv (sample_source [500, 0]) =
        Some ([0, 500], replicate 500 sample_candle, None))
   \<and> (full_page (page_at sample_conv (sample_source [500, 10]) 0)
    \<and> page_at sample_conv (sample_source [500, 10]) 1 = (replicate 10 sample_candle, 10, None)
    \<and> Fetch sample_conv (sample_source [500, 10]) =
        Some ([0, 500], replicate 510 sample_candle, None))
   \<and> (page_at sample_conv (sample_source [10]) 0 = (replicate 10 sample_candle, 10, None)
    \<and> Fetch sample_conv (sample_source [10]) = Some ([0], replicate 10 sample_candle, None))"
proof -
  let ?a = "sample_source [500, 0]" and ?b = "sample_source [500, 10]"
    and ?c = "sample_source [10]"
  have a0: "page_at sample_conv ?a 0 = (replicate 500 sample_candle, 500, None)"
    and a1: "page_at sample_conv ?a (Suc 0) = ([], 0, None)"
    and b0: "page_at sample_conv ?b 0 = (replicate 500 sample_candle, 500, None)"
    and b1: "page_at sample_conv ?b (Suc 0) = (replicate 10 sample_candle, 10, None)"
    and c0: "page_at sample_conv ?c 0 = (replicate 10 sample_candle, 10, None)"
    using sample_page_at [of 0 "[500, 0]"] sample_page_at [of "Suc 0" "[500, 0]"]
      sample_page_at [of 0 "[500, 10]"] sample_page_at [of "Suc 0" "[500, 10]"]
      sample_page_at [of 0 "[10]"]
    by simp_all
  have oa: "offset_at sample_conv ?a (Suc 0) = 500"
    and ob: "offset_at sample_conv ?b (Suc 0) = 500"
    using sample_offset_Suc [of 0 "[500, 0]"] sample_offset_Suc [of 0 "[500, 10]"] by simp_all
  have fa: "\<forall>j<Suc 0. full_page (page_at sample_conv ?a j)"
    and fb: "\<forall>j<Suc 0. full_page (page_at sample_conv ?b j)"
    by (simp_all add: a0 b0 full_page_def)
  have "Fetch sample_conv ?a =
      Some (map (offset_at sample_conv ?a) [0..<Suc (Suc 0)],
            rows_upto sample_conv ?a (Suc (Suc 0)), None)"
    using Fetch_pagination [of "Suc 0" sample_conv ?a, OF fa] by (simp add: a1)
  then have A: "Fetch sample_conv ?a = Some ([0, 500], replicate 500 sample_candle, None)"
    by (simp add: rows_upto_def a0 a1 oa del: offset_at.simps(2))
  have "Fetch sample_conv ?b =
      Some (map (offset_at sample_conv ?b) [0..<Suc (Suc 0)],
            rows_upto sample_conv ?b (Suc (Suc 0)), None)"
    using Fetch_pagination [of "Suc 0" sample_conv ?b, OF fb] by (simp add: b1)
  then have B: "Fetch sample_conv ?b = Some ([0, 500], replicate 510 sample_candle, None)"
    by (simp add: rows_upto_def b0 b1 ob replicate_add [symmetric] del: offset_at.simps(2))
  have "Fetch sample_conv ?c =
      Some (map (offset_at sample_conv ?c) [0..<Suc 0], rows_upto sample_conv ?c (Suc 0), None)"
    using Fetch_pagination [of 0 sample_conv ?c] by (simp add: c0)
  then have C: "Fetch sample_conv ?c = Some ([0], replicate 10 sample_candle, None)"
    by (simp add: rows_upto_def c0)
  show ?thesis
    using A B C a0 a1 b0 b1 c0 by (simp add: full_page_def)
qed

lemma read_sample_rows_then:
  "read_rows sample_conv (columns_of sample_header)
     \<lparr>FieldsPerRecord = 8, input = replicate n (Fields sample_row) @ rest\<rparr> result b =
   read_rows sample_conv (columns_of sample_header)
     \<lparr>FieldsPerRecord = 8, input = rest\<rparr> (result @ replicate n sample_candle) (b + n)"
proof (induction n arbitrary: result b)
  case 0
  show ?case by simp
next
  case (Suc n)
  have len: "length sample_row = 8" by (simp add: sample_row_def)
  show ?case
    by (subst read_rows.simps)
       (simp add: Read_def len parse_sample_row Suc replicate_app_Cons_same)
qed

lemma sample_broken_page:
  "fetch_page sample_conv (Resp \<lparr>StatusCode = st, Body = sample_body n @ [Malformed]\<rparr>) [] =
   (replicate n sample_candle, n, Some Read_csv_row)"
proof -
  have len: "length sample_header = 8" by (simp add: sample_header_def)
  have "read_rows sample_conv (columns_of sample_header)
     \<lparr>FieldsPerRecord = 8, input = [Malformed]\<rparr> (replicate n sample_candle) n =
     (replicate n sample_candle, n, Some Read_csv_row)"
    by (subst read_rows.simps) (simp add: Read_def)
  then show ?thesis
    using read_sample_rows_then [of n "[Malformed]" "[]" 0]
    by (simp add: fetch_page_def sample_body_def Read_def len)
qed

lemma Fetch_returns_if_not_full:
  assumes "\<not> full_page (page_at cv src k)"
  shows "\<exists>r. Fetch cv src = Some r"
proof -
  define m where "m = (LEAST k. \<not> full_page (page_at cv src k))"
  have "\<not> full_page (page_at cv src m)"
    unfolding m_def using assms by (rule LeastI)
  moreover have "\<forall>j<m. full_page (page_at cv src j)"
    unfolding m_def using not_less_Least by blast
  ultimately show ?thesis
    using Fetch_stops [of m cv src] by simp
qed

text \<open>
  Claim C10, as amended. \<open>Fetch\<close> returns if and only if some page of the run is not
  complete: it fails, or it parses to fewer than 500 rows. In particular it returns
  when the source eventually gives a page of fewer than 500 rows, and it never returns
  when every page parses without error to 500 rows or more: the loop has no bound of its
  own.
\<close>

theorem Fetch_returns_iff:
  "((\<exists>r. Fetch cv src = Some r) \<longleftrightarrow> (\<exists>k. \<not> full_page (page_at cv src k)))
   \<and> ((\<exists>k. snd (snd (page_at cv src k)) = None \<and> fst (snd (page_at cv src k)) < 500)
        \<longrightarrow> (\<exists>r. Fetch cv src = Some r))
   \<and> ((\<forall>k. snd (snd (page_at cv src k)) = None \<and> 500 \<le> fst (snd (page_at cv src k)))
        \<longrightarrow> Fetch cv src = None)"
proof (intro conjI impI iffI)
  assume "\<exists>r. Fetch cv src = Some r"
  then show "\<exists>k. \<not> full_page (page_at cv src k)"
    using Fetch_diverges [of cv src] by fastforce
next
  assume "\<exists>k. \<not> full_page (page_at cv src k)"
  then show "\<exists>r. Fetch cv src = Some r"
    using Fetch_returns_if_not_full by blast
next
  assume "\<exists>k. snd (snd (page_at cv src k)) = None \<and> fst (snd (page_at cv src k)) < 500"
  then obtain k where "fst (snd (page_at cv src k)) < 500"
    by blast
  then have "\<not> full_page (page_at cv src k)"
    by (simp add: full_page_def)
  then show "\<exists>r. Fetch cv src = Some r"
    by (rule Fetch_returns_if_not_full)
next
  assume "\<forall>k. snd (snd (page_at cv src k)) = None \<and> 500 \<le> fst (snd (page_at cv src k))"
  then show "Fetch cv src = None"
    using Fetch_diverges [of cv src] by (simp add: full_page_def)
qed

theorem Fetch_returns_iff_witness:
  "(snd (snd (page_at sample_conv (sample_source [500, 10]) 1)) = None
    \<and> fst (snd (page_at sample_conv (sample_source [500, 10]) 1)) < 500
    \<and> \<not> full_page (page_at sample_conv (sample_source [500, 10]) 1)
    \<and> (\<exists>r. Fetch sample_conv (sample_source [500, 10]) = Some r))
   \<and> ((\<forall>k. snd (snd (page_at sample_conv sample_endless_source k)) = None
            \<and> 500 \<le> fst (snd (page_at sample_conv sample_endless_source k)))
    \<and> Fetch sample_conv sample_endless_source = None)"
proof -
  let ?s = "sample_source [500, 10]"
  have p: "page_at sample_conv ?s 1 = (replicate 10 sample_candle, 10, None)"
    using sample_page_at [of 1 "[500, 10]"] by simp
  then have short: "snd (snd (page_at sample_conv ?s 1)) = None
      \<and> fst (snd (page_at sample_conv ?s 1)) < 500"
    by simp
  then have "\<exists>k. snd (snd (page_at sample_conv ?s k)) = None
      \<and> fst (snd (page_at sample_conv ?s k)) < 500"
    by blast
  then have r: "\<exists>r. Fetch sample_conv ?s = Some r"
    using Fetch_returns_iff [of sample_conv ?s] by blast
  have e: "\<forall>k. snd (snd (page_at sample_conv sample_endless_source k)) = None
            \<and> 500 \<le> fst (snd (page_at sample_conv sample_endless_source k))"
    by (simp add: page_at_def sample_endless_source_def sample_page)
  then have n: "Fetch sample_conv sample_endless_source = None"
    using Fetch_returns_iff [of sample_conv sample_endless_source] by blast
  show ?thesis
    using short r e n by (simp add: full_page_def)
qed

text \<open>
  The claim as stated, that a returning fetch has met a page of fewer than 500 parsed
  rows, fails on a page of 500 rows followed by a line the reader rejects: the fetch
  returns after this one request, with 500 rows parsed.
\<close>

theorem Fetch_returns_after_full_page_counterexample:
  "Fetch sample_conv sample_broken_source = Some ([0], [], Some Read_csv_row)
   \<and> page_at sample_conv sample_broken_source 0 =
       (replicate 500 sample_candle, 500, Some Read_csv_row)
   \<and> \<not> fst (snd (page_at sample_conv sample_broken_source 0)) < 500"
proof -
  have p: "page_at sample_conv sample_broken_source 0 =
       (replicate 500 sample_candle, 500, Some Read_csv_row)"
    by (simp add: page_at_def sample_broken_source_def sample_broken_page)
  then have "\<not> full_page (page_at sample_conv sample_broken_source 0)"
    by (simp add: full_page_def)
  then have "Fetch sample_conv sample_broken_source = Some ([0], [], Some Read_csv_row)"
    using Fetch_stops [of 0 sample_conv sample_broken_source] p by simp
  then show ?thesis using p by simp
qed

text \<open>
  Claim C3. \<open>Fetch\<close> does not read the status code: a response with status 503 whose
  body holds a well-formed page is parsed and returned without an error. A transport
  failure does fail the fetch, with the error the spec calls a NetworkError.
\<close>

theorem Fetch_ignores_status_code:
  "Fetch sample_conv (sample_status_source 503) = Some ([0], [sample_candle], None)
   \<and> Fetch sample_conv (\<lambda>k start. Transport_failure) = Some ([0], [], Some Http_get)
   \<and> classify Http_get = NetworkError"
proof -
  have p: "page_at sample_conv (sample_status_source 503) 0 = ([sample_candle], 1, None)"
    using sample_page [of 503 1]
    by (simp add: page_at_def sample_status_source_def)
  have q: "page_at sample_conv (\<lambda>k start. Transport_failure) 0 = ([], 0, Some Http_get)"
    by (simp add: page_at_def fetch_page_def)
  have "Fetch sample_conv (sample_status_source 503) = Some ([0], [sample_candle], None)"
    using Fetch_stops [of 0 sample_conv "sample_status_source 503"] p
    by (simp add: full_page_def rows_upto_def)
  moreover have "Fetch sample_conv (\<lambda>k start. Transport_failure) = Some ([0], [], Some Http_get)"
    using Fetch_stops [of 0 sample_conv "\<lambda>k start. Transport_failure"] q
    by (simp add: full_page_def)
  ultimately show ?thesis by simp
qed

lemma columns_from_Some:
  "columns_from n column m name = Some i \<Longrightarrow>
   m name = Some i \<or> (n \<le> i \<and> i < n + length column \<and> column ! (i - n) = name)"
proof (induction column arbitrary: n m)
  case Nil
  then show ?case by simp
next
  case (Cons c cs)
  from Cons.prems have "columns_from (Suc n) cs (m(c \<mapsto> n)) name = Some i"
    by simp
  from Cons.IH [OF this] show ?case
    by (auto simp: nth_Cons' split: if_splits)
qed

lemma columns_from_None:
  "name \<notin> set column \<Longrightarrow> columns_from n column m name = m name"
  by (induction column arbitrary: n m) auto

lemma columns_from_mem:
  "name \<in> set column \<Longrightarrow> columns_from n column m name \<noteq> None"
proof (induction column arbitrary: n m)
  case Nil
  then show ?case by simp
next
  case (Cons c cs)
  show ?case
  proof (cases "name \<in> set cs")
    case True
    then show ?thesis using Cons.IH by simp
  next
    case False
    then have "name = c" using Cons.prems by simp
    then show ?thesis
      using False by (simp add: columns_from_None)
  qed
qed

lemma columns_of_Some:
  "columns_of column name = Some i \<Longrightarrow> i < length column \<and> column ! i = name"
  using columns_from_Some [of 0 column Map.empty name i] by (simp add: columns_of_def)

lemma columns_of_missing: "name \<notin> set column \<Longrightarrow> col (columns_of column) name = 0"
  by (simp add: col_def columns_of_def columns_from_None)

lemma columns_of_present:
  "name \<in> set column \<Longrightarrow>
   col (columns_of column) name < length column \<and> column ! col (columns_of column) name = name"
  using columns_from_mem [of name column 0 Map.empty] columns_of_Some [of column name]
  by (auto simp: col_def columns_of_def split: option.splits)

lemma col_columns_of_less: "column \<noteq> [] \<Longrightarrow> col (columns_of column) name < length column"
  using columns_of_present [of name column] columns_of_missing [of name column]
  by (cases "name \<in> set column") auto

lemma parse_row_bad_cell:
  assumes "name \<in> set expected" and "cell row columns name = Inr s" and "\<not> converts cv name s"
  shows "\<exists>e. parse_row cv columns row = Inl e"
  using assms
  by (auto simp: expected_def converts_def parse_row_def bind_err_def or_err_def
      split: sum.splits option.splits)

lemma parse_row_in_range:
  assumes "\<forall>name\<in>set expected. col columns name < length row"
    and "parse_row cv columns row = Inl e"
  shows "classify e = ParseError"
  using assms
  by (auto simp: expected_def parse_row_def bind_err_def or_err_def cell_def
      split: sum.splits option.splits)

lemma read_rows_failure_class:
  assumes "0 < n" and "\<forall>name\<in>set expected. col columns name < n"
  shows "snd (snd (read_rows cv columns \<lparr>FieldsPerRecord = int n, input = raws\<rparr> result b)) = Some e
         \<Longrightarrow> classify e = ParseError"
proof (induction raws arbitrary: result b)
  case Nil
  then show ?case by (subst (asm) read_rows.simps) (simp add: Read_def)
next
  case (Cons r raws)
  show ?case
  proof (cases r)
    case Malformed
    then show ?thesis
      using Cons.prems by (subst (asm) read_rows.simps) (simp add: Read_def)
  next
    case (Fields row)
    show ?thesis
    proof (cases "length row = n")
      case False
      then show ?thesis
        using Cons.prems Fields assms(1) by (subst (asm) read_rows.simps) (simp add: Read_def)
    next
      case True
      show ?thesis
      proof (cases "parse_row cv columns row")
        case (Inl e')
        then have "e' = e"
          using Cons.prems Fields True assms(1)
          by (subst (asm) read_rows.simps) (simp add: Read_def)
        then show ?thesis
          using parse_row_in_range [of columns row cv e] assms(2) True Inl by simp
      next
        case (Inr c)
        then have "snd (snd (read_rows cv columns \<lparr>FieldsPerRecord = int n, input = raws\<rparr>
                     (result @ [c]) (b + 1))) = Some e"
          using Cons.prems Fields True assms(1)
          by (subst (asm) read_rows.simps) (simp add: Read_def)
        then show ?thesis by (rule Cons.IH)
      qed
    qed
  qed
qed

lemma read_rows_bad_row:
  assumes "0 < n" and "Fields row \<in> set raws" and "parse_row cv columns row = Inl e'"
  shows "snd (snd (read_rows cv columns \<lparr>FieldsPerRecord = int n, input = raws\<rparr> result b)) \<noteq> None"
  using assms(2)
proof (induction raws arbitrary: result b)
  case Nil
  then show ?case by simp
next
  case (Cons r raws)
  show ?case
  proof (cases r)
    case Malformed
    then show ?thesis
      by (subst read_rows.simps) (simp add: Read_def)
  next
    case (Fields row')
    show ?thesis
    proof (cases "length row' = n")
      case False
      then show ?thesis
        using Fields assms(1) by (subst read_rows.simps) (simp add: Read_def)
    next
      case True
      show ?thesis
      proof (cases "parse_row cv columns row'")
        case (Inl e'')
        then show ?thesis
          using Fields True assms(1) by (subst read_rows.simps) (simp add: Read_def)
      next
        case (Inr c)
        then have "row' \<noteq> row" using assms(3) by auto
        then have "Fields row \<in> set raws" using Cons.prems Fields by simp
        then show ?thesis
          using Fields True assms(1) Inr Cons.IH
          by (subst read_rows.simps) (simp add: Read_def)
      qed
    qed
  qed
qed

lemma fetch_page_bad_row:
  assumes "column \<noteq> []" and "Fields row \<in> set rows" and "parse_row cv (columns_of column) row = Inl e'"
  shows "\<exists>e. snd (snd (fetch_page cv (Resp \<lparr>StatusCode = st, Body = banner # Fields column # rows\<rparr>) []))
             = Some e \<and> classify e = ParseError"
proof (cases banner)
  case Malformed
  then show ?thesis by (simp add: fetch_page_def Read_def)
next
  case (Fields b)
  have n: "0 < length column" using assms(1) by simp
  have cols: "\<forall>name\<in>set expected. col (columns_of column) name < length column"
    using col_columns_of_less [OF assms(1)] by simp
  let ?r = "read_rows cv (columns_of column) \<lparr>FieldsPerRecord = int (length column), input = rows\<rparr> [] 0"
  have page: "fetch_page cv (Resp \<lparr>StatusCode = st, Body = banner # Fields column # rows\<rparr>) [] = ?r"
    using Fields by (simp add: fetch_page_def Read_def)
  obtain e where e: "snd (snd ?r) = Some e"
    using read_rows_bad_row [OF n assms(2,3), of "[]" 0] by auto
  then have "classify e = ParseError"
    using read_rows_failure_class [OF n cols] by blast
  then show ?thesis using page e by simp
qed

lemma Fetch_error_no_rows:
  assumes "Fetch cv src = Some (requests, rows, Some e)"
  shows "rows = []"
proof -
  have "\<exists>k. \<not> full_page (page_at cv src k)"
    using assms Fetch_diverges [of cv src] by fastforce
  then obtain k where k: "\<not> full_page (page_at cv src k)" ..
  define m where "m = (LEAST k. \<not> full_page (page_at cv src k))"
  have "\<not> full_page (page_at cv src m)"
    unfolding m_def using k by (rule LeastI)
  moreover have "\<forall>j<m. full_page (page_at cv src j)"
    unfolding m_def using not_less_Least by blast
  ultimately show ?thesis
    using Fetch_stops [of m cv src] assms by (auto split: if_splits)
qed

text \<open>
  Claim C4, as amended. A data cell that fails its conversion fails the whole fetch: when
  the pages before the \<open>k\<close>-th are complete and the \<open>k\<close>-th page has a row in which the
  cell resolved for one of the six names does not convert, \<open>Fetch\<close> returns an error the
  spec calls a ParseError, and no records. No returning fetch gives an error and records
  together. A name that the header lacks is no error by itself: it resolves to column 0.
\<close>

theorem conversion_failure_aborts_Fetch:
  assumes "\<forall>j<k. full_page (page_at cv src j)"
    and "src k (offset_at cv src k) =
           Resp \<lparr>StatusCode = st, Body = banner # Fields column # rows\<rparr>"
    and "column \<noteq> []"
    and "Fields row \<in> set rows"
    and "name \<in> set expected"
    and "cell row (columns_of column) name = Inr s"
    and "\<not> converts cv name s"
  shows "(\<exists>e. Fetch cv src = Some (map (offset_at cv src) [0..<Suc k], [], Some e)
              \<and> classify e = ParseError)
         \<and> (\<forall>requests result e. Fetch cv src = Some (requests, result, Some e) \<longrightarrow> result = [])
         \<and> (\<forall>missing. missing \<notin> set column \<longrightarrow> col (columns_of column) missing = 0)"
proof -
  obtain e' where "parse_row cv (columns_of column) row = Inl e'"
    using parse_row_bad_cell [OF assms(5,6,7)] by blast
  then obtain e where e: "snd (snd (page_at cv src k)) = Some e" "classify e = ParseError"
    using fetch_page_bad_row [OF assms(3,4), of cv e' st banner] assms(2)
    by (auto simp: page_at_def)
  then have "\<not> full_page (page_at cv src k)"
    by (simp add: full_page_def)
  then have "Fetch cv src = Some (map (offset_at cv src) [0..<Suc k], [], Some e)"
    using Fetch_stops [OF assms(1)] e(1) by simp
  then show ?thesis
    using e(2) Fetch_error_no_rows [of cv src] columns_of_missing [of _ column] by auto
qed

theorem conversion_failure_aborts_Fetch_witness:
  "sample_bad_volume_source 0 (offset_at sample_conv sample_bad_volume_source 0) =
     Resp \<lparr>StatusCode = 200,
           Body = Fields [''candles''] # Fields sample_header
                  # [Fields sample_row, Fields sample_bad_row]\<rparr>
   \<and> sample_header \<noteq> []
   \<and> Fields sample_bad_row \<in> set [Fields sample_row, Fields sample_bad_row]
   \<and> ''volume'' \<in> set expected
   \<and> cell sample_bad_row (columns_of sample_header) ''volume'' = Inr ''1e3''
   \<and> \<not> converts sample_conv ''volume'' ''1e3''
   \<and> (\<exists>e. Fetch sample_conv sample_bad_volume_source = Some ([0], [], Some e)
           \<and> classify e = ParseError)"
proof -
  have a: "sample_bad_volume_source 0 (offset_at sample_conv sample_bad_volume_source 0) =
     Resp \<lparr>StatusCode = 200,
           Body = Fields [''candles''] # Fields sample_header
                  # [Fields sample_row, Fields sample_bad_row]\<rparr>"
    by (simp add: sample_bad_volume_source_def)
  have b: "sample_header \<noteq> []"
    by (simp add: sample_header_def)
  have c: "Fields sample_bad_row \<in> set [Fields sample_row, Fields sample_bad_row]"
    by simp
  have d: "''volume'' \<in> set expected"
    by (simp add: expected_def)
  have e: "cell sample_bad_row (columns_of sample_header) ''volume'' = Inr ''1e3''"
    by (simp add: cell_def columns_of_sample_header sample_bad_row_def)
  have f: "\<not> converts sample_conv ''volume'' ''1e3''"
    by (simp add: converts_def sample_conv_def)
  have "\<forall>j<0. full_page (page_at sample_conv sample_bad_volume_source j)"
    by simp
  from conversion_failure_aborts_Fetch [OF this a b c d e f]
  have "\<exists>e. Fetch sample_conv sample_bad_volume_source = Some ([0], [], Some e)
           \<and> classify e = ParseError"
    by simp
  then show ?thesis using a b c d e f by blast
qed

lemma Fetch_sample_no_volume:
  "Fetch sample_conv sample_no_volume_source = Some ([0], [sample_candle], None)"
proof -
  have cols:
    "col (columns_of sample_header_no_volume) ''begin'' = 5"
    "col (columns_of sample_header_no_volume) ''open'' = 0"
    "col (columns_of sample_header_no_volume) ''high'' = 2"
    "col (columns_of sample_header_no_volume) ''low'' = 3"
    "col (columns_of sample_header_no_volume) ''close'' = 1"
    "col (columns_of sample_header_no_volume) ''volume'' = 0"
    by (simp_all add: columns_of_def sample_header_no_volume_def col_def)
  have row: "parse_row sample_conv (columns_of sample_header_no_volume) sample_row_no_volume =
      Inr sample_candle"
    by (simp add: parse_row_def cell_def cols bind_err_def or_err_def
        sample_row_no_volume_def sample_conv_def sample_candle_def)
  have len: "length sample_header_no_volume = 7" "length sample_row_no_volume = 7"
    by (simp_all add: sample_header_no_volume_def sample_row_no_volume_def)
  have "read_rows sample_conv (columns_of sample_header_no_volume)
          \<lparr>FieldsPerRecord = 7, input = [Fields sample_row_no_volume]\<rparr> [] 0 =
        ([sample_candle], 1, None)"
    by (subst read_rows.simps, simp add: Read_def len row, subst read_rows.simps)
       (simp add: Read_def)
  then have p: "page_at sample_conv sample_no_volume_source 0 = ([sample_candle], 1, None)"
    by (simp add: page_at_def sample_no_volume_source_def fetch_page_def Read_def len)
  then have "Fetch sample_conv sample_no_volume_source = Some ([0], [sample_candle], None)"
    using Fetch_stops [of 0 sample_conv sample_no_volume_source]
    by (simp add: full_page_def rows_upto_def)
  then show ?thesis .
qed

text \<open>
  The claim as stated, that a missing expected column raises a ParseError, fails on a
  header without \<open>volume\<close>: the volume is read from column 0, the open price, and the
  fetch returns the record without an error.
\<close>

theorem missing_column_counterexample:
  "''volume'' \<notin> set sample_header_no_volume
   \<and> Fetch sample_conv sample_no_volume_source = Some ([0], [sample_candle], None)"
  using Fetch_sample_no_volume by (simp add: sample_header_no_volume_def)

lemma count_list_1_unique:
  "count_list xs a = 1 \<Longrightarrow> i < length xs \<Longrightarrow> j < length xs \<Longrightarrow> xs ! i = a \<Longrightarrow> xs ! j = a
   \<Longrightarrow> i = j"
proof (induction xs arbitrary: i j)
  case Nil
  then show ?case by simp
next
  case (Cons x xs)
  show ?case
  proof (cases "x = a")
    case True
    then have "count_list xs a = 0" using Cons.prems(1) by simp
    then have "a \<notin> set xs" by (simp add: count_list_0_iff)
    then have "i = 0" "j = 0"
      using Cons.prems(2-5) by (auto simp: nth_Cons' split: if_splits)
    then show ?thesis by simp
  next
    case False
    then have "0 < i" "0 < j" using Cons.prems(4,5) by (auto simp: nth_Cons' split: if_splits)
    moreover have "count_list xs a = 1" using False Cons.prems(1) by simp
    ultimately have "i - 1 = j - 1"
      using Cons.IH [of "i - 1" "j - 1"] Cons.prems(2-5) by (auto simp: nth_Cons')
    then show ?thesis using \<open>0 < i\<close> \<open>0 < j\<close> by simp
  qed
qed

lemma count_list_1_mem: "count_list xs a = 1 \<Longrightarrow> a \<in> set xs"
  using count_list_0_iff [of xs a] by auto

lemma cell_permute:
  assumes p: "mset p = mset [0..<length column]"
    and one: "count_list column name = 1"
    and len: "length row = length column"
  shows "cell (permute p row) (columns_of (permute p column)) name =
         cell row (columns_of column) name"
proof -
  let ?n = "length column"
  have setp: "set p = {0..<?n}" using mset_eq_setD [OF p] by simp
  have lenp: "length p = ?n" using mset_eq_length [OF p] by simp
  have mem: "name \<in> set column" using one by (rule count_list_1_mem)
  let ?i = "col (columns_of column) name"
  let ?j = "col (columns_of (permute p column)) name"
  have i: "?i < ?n" "column ! ?i = name"
    using columns_of_present [OF mem] by simp_all
  have "?i \<in> set p" using setp i(1) by simp
  then obtain j0 where "j0 < length p" "p ! j0 = ?i" by (auto simp: in_set_conv_nth)
  then have "permute p column ! j0 = name" using i(2) by (simp add: permute_def)
  then have "name \<in> set (permute p column)"
    using \<open>j0 < length p\<close> by (metis length_map nth_mem permute_def)
  then have j: "?j < length (permute p column)" "permute p column ! ?j = name"
    using columns_of_present [of name "permute p column"] by simp_all
  then have jn: "?j < ?n" by (simp add: permute_def lenp)
  have pj: "p ! ?j < ?n" using setp jn lenp by (metis atLeastLessThan_iff nth_mem)
  have "column ! (p ! ?j) = name" using j(2) jn lenp by (simp add: permute_def)
  then have "p ! ?j = ?i"
    using count_list_1_unique [OF one pj i(1)] i(2) by simp
  then have "permute p row ! ?j = row ! ?i"
    using jn lenp by (simp add: permute_def)
  then show ?thesis
    using jn i(1) len lenp by (simp add: cell_def permute_def)
qed

lemma parse_row_permute:
  assumes "mset p = mset [0..<length column]"
    and "\<forall>name\<in>set expected. count_list column name = 1"
    and "length row = length column"
  shows "parse_row cv (columns_of (permute p column)) (permute p row) =
         parse_row cv (columns_of column) row"
proof -
  have "cell (permute p row) (columns_of (permute p column)) name =
        cell row (columns_of column) name" if "name \<in> set expected" for name
    using cell_permute [OF assms(1) _ assms(3)] assms(2) that by blast
  then show ?thesis
    by (simp add: parse_row_def expected_def)
qed

lemma read_rows_permute:
  assumes "mset p = mset [0..<length column]"
    and "\<forall>name\<in>set expected. count_list column name = 1"
  shows "read_rows cv (columns_of (permute p column))
           \<lparr>FieldsPerRecord = int (length column), input = map (permute_raw p) rows\<rparr> result b =
         read_rows cv (columns_of column)
           \<lparr>FieldsPerRecord = int (length column), input = rows\<rparr> result b"
proof (induction rows arbitrary: result b)
  case Nil
  show ?case
    by (subst read_rows.simps, subst (2) read_rows.simps) (simp add: Read_def)
next
  case (Cons r rows)
  have lenp: "length p = length column" using mset_eq_length [OF assms(1)] by simp
  have pos: "0 < length column"
    using assms(2) count_list_1_mem [of column "''begin''"] by (auto simp: expected_def)
  show ?case
  proof (cases r)
    case Malformed
    then show ?thesis
      by (subst read_rows.simps, subst (2) read_rows.simps) (simp add: Read_def)
  next
    case (Fields row)
    show ?thesis
    proof (cases "length row = length column")
      case False
      then show ?thesis
        using Fields pos lenp
        by (subst read_rows.simps, subst (2) read_rows.simps) (simp add: Read_def)
    next
      case True
      have "length (permute p row) = length column" by (simp add: permute_def lenp)
      then show ?thesis
        using Fields pos lenp True parse_row_permute [OF assms True, of cv] Cons.IH
        by (subst read_rows.simps, subst (2) read_rows.simps)
           (simp add: Read_def split: sum.splits)
    qed
  qed
qed

lemma fetch_page_permute:
  assumes "\<And>column. header_of got = Some column \<Longrightarrow>
             mset p = mset [0..<length column] \<and> (\<forall>name\<in>set expected. count_list column name = 1)"
  shows "fetch_page cv (permute_response p got) result = fetch_page cv got result"
proof (cases got)
  case Transport_failure
  then show ?thesis by simp
next
  case (Resp resp)
  show ?thesis
  proof (cases "\<exists>banner column rows. Body resp = banner # Fields column # rows")
    case False
    then have "permute_body p (Body resp) = Body resp"
      by (auto simp: permute_body_def split: list.splits raw.splits)
    then show ?thesis using Resp by simp
  next
    case True
    then obtain banner column rows where body: "Body resp = banner # Fields column # rows"
      by blast
    then have h: "mset p = mset [0..<length column]"
      "\<forall>name\<in>set expected. count_list column name = 1"
      using assms [of column] Resp by simp_all
    have lenp: "length (permute p column) = length column"
      using mset_eq_length [OF h(1)] by (simp add: permute_def)
    show ?thesis
    proof (cases banner)
      case Malformed
      then show ?thesis
        using Resp body by (simp add: fetch_page_def permute_body_def Read_def)
    next
      case (Fields b)
      then show ?thesis
        using Resp body lenp read_rows_permute [OF h, of cv rows result 0]
        by (simp add: fetch_page_def permute_body_def Read_def)
    qed
  qed
qed

lemma Fetch_cong_pages:
  assumes "\<And>k start. fetch_page cv (src' k start) [] = fetch_page cv (src k start) []"
  shows "Fetch cv src' = Fetch cv src"
proof -
  have off: "offset_at cv src' k = offset_at cv src k" for k
    by (induction k) (simp_all add: assms)
  have page: "page_at cv src' k = page_at cv src k" for k
    by (simp add: page_at_def off assms)
  have rows: "rows_upto cv src' k = rows_upto cv src k" for k
    by (simp add: rows_upto_def page)
  show ?thesis
  proof (cases "\<exists>k. \<not> full_page (page_at cv src k)")
    case False
    then show ?thesis
      using Fetch_diverges [of cv src] Fetch_diverges [of cv src'] by (simp add: page)
  next
    case True
    define m where "m = (LEAST k. \<not> full_page (page_at cv src k))"
    have stop: "\<not> full_page (page_at cv src m)"
      unfolding m_def using True by (rule LeastI_ex)
    have before: "\<forall>j<m. full_page (page_at cv src j)"
      unfolding m_def using not_less_Least by blast
    have "Fetch cv src' =
        Some (map (offset_at cv src') [0..<Suc m],
           (if snd (snd (page_at cv src' m)) = None then rows_upto cv src' (Suc m) else []),
           snd (snd (page_at cv src' m)))"
      using Fetch_stops [of m cv src'] stop before by (simp add: page)
    then show ?thesis
      using Fetch_stops [OF before stop] by (simp add: page off rows)
  qed
qed

text \<open>
  Claim C8. The six cells are found by the name of their column, so the order of the
  columns does not matter: for responses whose header names each of the six columns once,
  as the header of the source does, listing the columns in a permuted order, with the
  cells of each data row permuted accordingly, does not change what \<open>Fetch\<close> returns:
  the same requests, the same records, the same error, and the same non-termination.
\<close>

theorem Fetch_column_order_independent:
  assumes "\<forall>k start column. header_of (src k start) = Some column \<longrightarrow>
             mset (P k start) = mset [0..<length column]
             \<and> (\<forall>name\<in>set expected. count_list column name = 1)"
  shows "Fetch cv (permuted_source P src) = Fetch cv src"
proof (rule Fetch_cong_pages)
  fix k start
  show "fetch_page cv (permuted_source P src k start) [] = fetch_page cv (src k start) []"
    unfolding permuted_source_def
    by (rule fetch_page_permute) (use assms in blast)
qed

theorem Fetch_column_order_independent_witness:
  "header_of (sample_source [1] 0 0) = Some sample_header
   \<and> mset [7, 6, 5, 4, 3, 2, 1, 0] = mset [0..<length sample_header]
   \<and> list_all (\<lambda>name. count_list sample_header name = 1) expected
   \<and> Fetch sample_conv sample_reversed_source = Fetch sample_conv (sample_source [1])
   \<and> Fetch sample_conv (sample_source [1]) = Some ([0], [sample_candle], None)"
proof -
  have h: "header_of (sample_source [1] k start) = Some column \<Longrightarrow> column = sample_header"
    for k start column
    by (auto simp: sample_source_def sample_body_def split: if_splits)
  have u: "[0..<8] = [0, 1, 2, 3, 4, 5, 6, 7::nat]"
    by code_simp
  have len: "length sample_header = 8"
    by (simp add: sample_header_def)
  have "mset [7, 6, 5, 4, 3, 2, 1, 0] = mset [0, 1, 2, 3, 4, 5, 6, 7::nat]"
    by (simp add: add_mset_commute)
  then have m: "mset [7, 6, 5, 4, 3, 2, 1, 0] = mset [0..<length sample_header]"
    unfolding len u .
  have c: "list_all (\<lambda>name. count_list sample_header name = 1) expected"
    by (simp add: sample_header_def expected_def)
  have "\<forall>k start column. header_of (sample_source [1] k start) = Some column \<longrightarrow>
             mset [7, 6, 5, 4, 3, 2, 1, 0] = mset [0..<length column]
             \<and> (\<forall>name\<in>set expected. count_list column name = 1)"
    using h m c by (auto simp: list_all_iff)
  then have "Fetch sample_conv sample_reversed_source = Fetch sample_conv (sample_source [1])"
    unfolding sample_reversed_source_def
    using Fetch_column_order_independent
      [of "sample_source [1]" "\<lambda>k start. [7, 6, 5, 4, 3, 2, 1, 0]" sample_conv]
    by simp
  moreover have "Fetch sample_conv (sample_source [1]) = Some ([0], [sample_candle], None)"
    using Fetch_stops [of 0 sample_conv "sample_source [1]"] sample_page_at [of 0 "[1]"]
    by (simp add: full_page_def rows_upto_def)
  moreover have "header_of (sample_source [1] 0 0) = Some sample_header"
    by (simp add: sample_source_def sample_body_def)
  ultimately show ?thesis using m c by simp
qed

lemma time_Date_eq_iff: "time_Date y m d = time_Date y m d' \<longleftrightarrow> d = d'"
  using nsPerDay_pos by (simp add: time_Date_def absDays_day [of y m d] absDays_day [of y m d'])

lemma time_Date_less_iff: "time_Date y m d < time_Date y' m' d' \<longleftrightarrow> absDays y m d < absDays y' m' d'"
  using nsPerDay_pos by (simp add: time_Date_def)

lemma time_Date_le_iff: "time_Date y m d \<le> time_Date y' m' d' \<longleftrightarrow> absDays y m d \<le> absDays y' m' d'"
  using nsPerDay_pos by (simp add: time_Date_def)

lemma AddDays_time_Date: "AddDays (time_Date y m d) n = time_Date y m (d + n)"
  by (simp add: AddDays_def time_Date_def absDays_day [of y m d] absDays_day [of y m "d + n"]
      algebra_simps)

lemma Weekday_time_Date: "Weekday (time_Date y m d) = (absDays y m 1 + d) mod 7"
  by (simp add: Weekday_Date absDays_day [of y m d])

lemma thirdFriday_time_Date: "thirdFriday y m = time_Date y m (thirdFriday_day y m)"
  by (simp add: thirdFriday_eq thirdFriday_day_def Weekday_time_Date)

lemma thirdFriday_day_range: "15 \<le> thirdFriday_day y m \<and> thirdFriday_day y m \<le> 21"
proof -
  have "0 \<le> (12 - (absDays y m 1 + 15) mod 7) mod 7" "(12 - (absDays y m 1 + 15) mod 7) mod 7 < 7"
    by simp_all
  then show ?thesis by (simp add: thirdFriday_day_def)
qed

lemma weekday_shift: "(a + d) mod 7 = ((a + 15) mod 7 + (d - 15)) mod (7::int)"
  by (simp add: mod_simps)

lemma mod7_cases:
  fixes r :: int
  shows "0 \<le> r \<Longrightarrow> r < 7 \<Longrightarrow> r = 0 \<or> r = 1 \<or> r = 2 \<or> r = 3 \<or> r = 4 \<or> r = 5 \<or> r = 6"
  by arith

lemma thirdFriday_day_Friday: "(a + (15 + (12 - (a + 15) mod 7) mod 7)) mod 7 = (5::int)"
proof -
  define r where "r = (a + 15) mod 7"
  have r: "r = 0 \<or> r = 1 \<or> r = 2 \<or> r = 3 \<or> r = 4 \<or> r = 5 \<or> r = 6"
    by (rule mod7_cases) (simp_all add: r_def)
  have "(a + (15 + (12 - r) mod 7)) mod 7 = (r + (12 - r) mod 7) mod 7"
    using weekday_shift [of a "15 + (12 - r) mod 7"] by (simp add: r_def)
  also have "\<dots> = 5"
    using r by (elim disjE) simp_all
  finally show ?thesis by (simp add: r_def)
qed

lemma Friday_unique:
  assumes "15 \<le> d" "d \<le> 21" "(a + d) mod 7 = (5::int)"
  shows "d = 15 + (12 - (a + 15) mod 7) mod 7"
proof -
  define r where "r = (a + 15) mod 7"
  have r: "r = 0 \<or> r = 1 \<or> r = 2 \<or> r = 3 \<or> r = 4 \<or> r = 5 \<or> r = 6"
    by (rule mod7_cases) (simp_all add: r_def)
  have "(r + (d - 15)) mod 7 = 5"
    using assms(3) weekday_shift [of a d] by (simp add: r_def)
  then have "d = 15 + (12 - r) mod 7"
    using r assms(1,2) by (elim disjE) (simp_all, presburger+)
  then show ?thesis by (simp add: r_def)
qed

lemma Fridays_before:
  assumes "1 \<le> d" "d < 15"
  shows "((a + d) mod 7 = (5::int)) =
   (d = 15 + (12 - (a + 15) mod 7) mod 7 - 7 \<or> d = 15 + (12 - (a + 15) mod 7) mod 7 - 14)"
proof -
  define r where "r = (a + 15) mod 7"
  have r: "r = 0 \<or> r = 1 \<or> r = 2 \<or> r = 3 \<or> r = 4 \<or> r = 5 \<or> r = 6"
    by (rule mod7_cases) (simp_all add: r_def)
  have "((a + d) mod 7 = 5) = ((r + (d - 15)) mod 7 = 5)"
    using weekday_shift [of a d] by (simp add: r_def)
  also have "\<dots> = (d = 15 + (12 - r) mod 7 - 7 \<or> d = 15 + (12 - r) mod 7 - 14)"
    using r assms by (elim disjE) (simp_all, presburger+)
  finally show ?thesis by (simp add: r_def)
qed

lemma leap_rule:
  fixes y :: int
  shows "(if y mod 4 = 0 then 1 else 0) - (if y mod 100 = 0 then 1 else 0)
         + (if y mod 400 = 0 then 1 else 0) = (if isLeap y then 1 else (0::int))"
proof -
  have a: "y mod 100 = 0" if "y mod 400 = 0"
  proof -
    have "(400::int) dvd y" using that by (simp add: mod_eq_0_iff_dvd)
    then have "(100::int) dvd y" by (rule dvd_trans [rotated]) simp
    then show ?thesis by (simp add: mod_eq_0_iff_dvd)
  qed
  have b: "y mod 4 = 0" if "y mod 100 = 0"
  proof -
    have "(100::int) dvd y" using that by (simp add: mod_eq_0_iff_dvd)
    then have "(4::int) dvd y" by (rule dvd_trans [rotated]) simp
    then show ?thesis by (simp add: mod_eq_0_iff_dvd)
  qed
  define p4 p100 p400 where "p4 = (y mod 4 = 0)" and "p100 = (y mod 100 = 0)" and "p400 = (y mod 400 = 0)"
  have "p400 \<longrightarrow> p100" "p100 \<longrightarrow> p4" using a b by (simp_all add: p4_def p100_def p400_def)
  then have "(if p4 then 1 else 0) - (if p100 then 1 else 0)
         + (if p400 then 1 else 0) = (if p4 \<and> (\<not> p100 \<or> p400) then 1 else (0::int))"
    by (cases p4; cases p100; cases p400) simp_all
  then show ?thesis
    unfolding isLeap_def p4_def p100_def p400_def .
qed

lemma div_pred:
  fixes y n :: int
  assumes "0 < n"
  shows "y div n - (y - 1) div n = (if y mod n = 0 then 1 else 0)"
proof (cases "y mod n = 0")
  case True
  then obtain q where q: "y = n * q" by (metis mod_eq_0_iff_dvd dvd_def)
  have "(n * q - 1) div n = q - 1"
    by (rule int_div_pos_eq [where r = "n - 1"]) (use assms in \<open>simp_all add: algebra_simps\<close>)
  then show ?thesis using q True assms by simp
next
  case False
  define r where "r = y mod n"
  have "0 \<le> r" "r < n" "r \<noteq> 0" using False assms by (simp_all add: r_def)
  then have r: "0 < r" "r < n" by simp_all
  have y: "y = n * (y div n) + r" by (simp add: r_def)
  have "(y - 1) div n = y div n"
    by (rule int_div_pos_eq [where r = "r - 1"]) (use r y in simp_all)
  then show ?thesis using False by simp
qed

lemma daysSinceEpoch_next:
  "daysSinceEpoch (y + 1) = daysSinceEpoch y + 365 + (if isLeap y then 1 else 0)"
proof -
  define d4 d100 d400 e4 e100 e400 where "d4 = y div 4" and "d100 = y div 100"
    and "d400 = y div 400" and "e4 = (y - 1) div 4" and "e100 = (y - 1) div 100"
    and "e400 = (y - 1) div 400"
  have s: "d4 - e4 = (if y mod 4 = 0 then 1 else 0)"
    "d100 - e100 = (if y mod 100 = 0 then 1 else 0)"
    "d400 - e400 = (if y mod 400 = 0 then 1 else 0)"
    unfolding d4_def d100_def d400_def e4_def e100_def e400_def
    by (rule div_pred, simp)+
  have "daysSinceEpoch (y + 1) = 365 * y + d4 - d100 + d400"
    by (simp add: daysSinceEpoch_def Let_def d4_def d100_def d400_def)
  moreover have "daysSinceEpoch y = 365 * (y - 1) + e4 - e100 + e400"
    by (simp add: daysSinceEpoch_def Let_def e4_def e100_def e400_def)
  ultimately have "daysSinceEpoch (y + 1) - daysSinceEpoch y =
      365 + ((d4 - e4) - (d100 - e100) + (d400 - e400))"
    by (simp add: algebra_simps)
  also have "\<dots> = 365 + (if isLeap y then 1 else 0)"
    unfolding s leap_rule ..
  finally show ?thesis by simp
qed

lemma absDays_first_day: "absDays y m d = first_day (12 * y + (m - 1)) + (d - 1)"
proof -
  have d: "(12 * y + (m - 1)) div 12 = y + (m - 1) div 12"
    and mo: "(12 * y + (m - 1)) mod 12 = (m - 1) mod 12"
    by simp_all
  have "first_day (12 * y + (m - 1)) =
      daysSinceEpoch (0 + (12 * y + (m - 1)) div 12)
      + daysBefore ((12 * y + (m - 1)) mod 12 + 1 - 1)
      + (if isLeap (0 + (12 * y + (m - 1)) div 12) \<and> 3 \<le> (12 * y + (m - 1)) mod 12 + 1
         then 1 else 0)
      + (1 - 1)"
    unfolding first_day_def absDays_def Let_def add_diff_cancel_right' ..
  also have "\<dots> = absDays y m 1"
    unfolding d mo absDays_def Let_def by simp
  finally show ?thesis
    by (simp add: absDays_def Let_def)
qed

lemma first_day_split:
  assumes "0 \<le> r" "r < 12"
  shows "first_day (12 * q + r) =
         daysSinceEpoch q + daysBefore r + (if isLeap q \<and> 2 \<le> r then 1 else 0)"
proof -
  have d: "(12 * q + r) div 12 = q" and mo: "(12 * q + r) mod 12 = r"
    using assms by simp_all
  have "first_day (12 * q + r) =
      daysSinceEpoch (0 + (12 * q + r) div 12)
      + daysBefore ((12 * q + r) mod 12 + 1 - 1)
      + (if isLeap (0 + (12 * q + r) div 12) \<and> 3 \<le> (12 * q + r) mod 12 + 1
         then 1 else 0)
      + (1 - 1)"
    unfolding first_day_def absDays_def Let_def add_diff_cancel_right' ..
  also have "\<dots> = daysSinceEpoch q + daysBefore r + (if isLeap q \<and> 2 \<le> r then 1 else 0)"
    unfolding d mo by simp
  finally show ?thesis .
qed

lemma month_cases:
  fixes r :: int
  shows "0 \<le> r \<Longrightarrow> r < 11 \<Longrightarrow>
    r = 0 \<or> r = 1 \<or> r = 2 \<or> r = 3 \<or> r = 4 \<or> r = 5 \<or> r = 6 \<or> r = 7 \<or> r = 8 \<or> r = 9
    \<or> r = 10"
  by arith

lemma daysBefore_step:
  assumes "0 \<le> r" "r < 11"
  shows "daysBefore r + (if leap \<and> 2 \<le> r then 1 else 0) + 28
           \<le> daysBefore (r + 1) + (if leap \<and> 2 \<le> r + 1 then 1 else 0)
         \<and> daysBefore (r + 1) + (if leap \<and> 2 \<le> r + 1 then 1 else 0)
           \<le> daysBefore r + (if leap \<and> 2 \<le> r then 1 else 0) + 31"
  using month_cases [OF assms]
  by (elim disjE) (simp_all add: daysBefore_def)

lemma first_day_step: "first_day k + 28 \<le> first_day (k + 1) \<and> first_day (k + 1) \<le> first_day k + 31"
proof -
  define q r where "q = k div 12" and "r = k mod 12"
  have k: "k = 12 * q + r" and r: "0 \<le> r" "r < 12"
    by (simp_all add: q_def r_def)
  show ?thesis
  proof (cases "r = 11")
    case True
    have "first_day (k + 1) = first_day (12 * (q + 1) + 0)"
      using k True by (simp add: algebra_simps)
    also have "\<dots> = daysSinceEpoch (q + 1)"
      by (subst first_day_split) (simp_all add: daysBefore_def)
    finally have n: "first_day (k + 1) = daysSinceEpoch (q + 1)" .
    have "first_day k = first_day (12 * q + 11)"
      using k True by simp
    also have "\<dots> = daysSinceEpoch q + 334 + (if isLeap q then 1 else 0)"
      by (subst first_day_split) (simp_all add: daysBefore_def)
    finally show ?thesis
      unfolding n daysSinceEpoch_next by simp
  next
    case False
    then have r0: "0 \<le> r" "r < 11" using r by simp_all
    then have r1: "0 \<le> r + 1" "r + 1 < 12" by simp_all
    have "first_day (k + 1) = first_day (12 * q + (r + 1))"
      using k by (simp add: algebra_simps)
    then have n: "first_day (k + 1) =
        daysSinceEpoch q + daysBefore (r + 1) + (if isLeap q \<and> 2 \<le> r + 1 then 1 else 0)"
      using first_day_split [OF r1, of q] by simp
    have "first_day k = first_day (12 * q + r)"
      using k by simp
    then have c: "first_day k = daysSinceEpoch q + daysBefore r + (if isLeap q \<and> 2 \<le> r then 1 else 0)"
      using first_day_split [OF r, of q] by simp
    show ?thesis
      unfolding n c using daysBefore_step [OF r0, of "isLeap q"] by simp
  qed
qed

lemma first_day_mono_nat: "first_day a + 28 * int n \<le> first_day (a + int n)"
proof (induction n)
  case 0
  show ?case by simp
next
  case (Suc n)
  have "first_day (a + int n) + 28 \<le> first_day (a + int n + 1)"
    using first_day_step [of "a + int n"] by simp
  then show ?case using Suc by (simp add: algebra_simps)
qed

lemma first_day_mono: "a \<le> b \<Longrightarrow> first_day a + 28 * (b - a) \<le> first_day b"
  using first_day_mono_nat [of a "nat (b - a)"] by simp

text \<open>
  Claim C6. The third Friday computation returns a Friday whose day of the month lies
  between 15 and 21; it is the only Friday among these seven days, it lies inside the
  month, and the Fridays earlier in the month are exactly the two that are 7 and 14 days
  before it: it is the third Friday of the month.
\<close>

theorem thirdFriday_is_third_Friday:
  "Weekday (thirdFriday y m) = Friday
   \<and> thirdFriday y m = time_Date y m (thirdFriday_day y m)
   \<and> 15 \<le> thirdFriday_day y m \<and> thirdFriday_day y m \<le> 21
   \<and> time_Date y m 21 < time_Date y (m + 1) 1
   \<and> (\<forall>d. 15 \<le> d \<and> d \<le> 21 \<and> Weekday (time_Date y m d) = Friday
          \<longrightarrow> time_Date y m d = thirdFriday y m)
   \<and> (\<forall>d. 1 \<le> d \<and> d < 15 \<longrightarrow>
          (Weekday (time_Date y m d) = Friday) =
          (time_Date y m d = AddDays (thirdFriday y m) (- 7)
           \<or> time_Date y m d = AddDays (thirdFriday y m) (- 14)))"
proof -
  let ?a = "absDays y m 1"
  have "(?a + thirdFriday_day y m) mod 7 = 5"
    unfolding thirdFriday_day_def by (rule thirdFriday_day_Friday)
  then have wd: "Weekday (thirdFriday y m) = Friday"
    unfolding thirdFriday_time_Date Weekday_time_Date Friday_def .
  have "absDays y (m + 1) 1 = first_day (12 * y + (m - 1) + 1)"
    using absDays_first_day [of y "m + 1" 1] by (simp add: algebra_simps)
  moreover have "absDays y m 21 = first_day (12 * y + (m - 1)) + 20"
    using absDays_first_day [of y m 21] by simp
  ultimately have "absDays y m 21 < absDays y (m + 1) 1"
    using first_day_step [of "12 * y + (m - 1)"] by linarith
  then have inside: "time_Date y m 21 < time_Date y (m + 1) 1"
    unfolding time_Date_less_iff .
  have uniq: "time_Date y m d = thirdFriday y m"
    if h: "15 \<le> d \<and> d \<le> 21 \<and> Weekday (time_Date y m d) = Friday" for d
  proof -
    have "(?a + d) mod 7 = 5"
      using h unfolding Weekday_time_Date Friday_def by blast
    then have "d = thirdFriday_day y m"
      unfolding thirdFriday_day_def using h Friday_unique [of d ?a] by blast
    then show ?thesis
      unfolding thirdFriday_time_Date by (rule arg_cong)
  qed
  have before: "(Weekday (time_Date y m d) = Friday) =
          (time_Date y m d = AddDays (thirdFriday y m) (- 7)
           \<or> time_Date y m d = AddDays (thirdFriday y m) (- 14))"
    if h: "1 \<le> d \<and> d < 15" for d
  proof -
    have "((?a + d) mod 7 = 5) =
        (d = thirdFriday_day y m - 7 \<or> d = thirdFriday_day y m - 14)"
      unfolding thirdFriday_day_def using h Fridays_before [of d ?a] by blast
    moreover have "AddDays (thirdFriday y m) (- 7) = time_Date y m (thirdFriday_day y m - 7)"
      "AddDays (thirdFriday y m) (- 14) = time_Date y m (thirdFriday_day y m - 14)"
      unfolding thirdFriday_time_Date AddDays_time_Date by simp_all
    ultimately show ?thesis
      unfolding Weekday_time_Date Friday_def by (simp only: time_Date_eq_iff)
  qed
  show ?thesis
    apply (intro conjI allI impI)
    subgoal by (rule wd)
    subgoal by (rule thirdFriday_time_Date)
    subgoal using thirdFriday_day_range [of y m] by blast
    subgoal using thirdFriday_day_range [of y m] by blast
    subgoal by (rule inside)
    subgoal for d by (rule uniq)
    subgoal for d by (rule before)
    done
qed

theorem thirdFriday_is_third_Friday_witness:
  "thirdFriday 2024 3 = time_Date 2024 3 15
   \<and> Weekday (time_Date 2024 3 15) = Friday
   \<and> Weekday (time_Date 2024 3 8) = Friday
   \<and> time_Date 2024 3 8 = AddDays (thirdFriday 2024 3) (- 7)"
proof -
  have a: "absDays 2024 3 1 = 738945"
    by (simp add: absDays_def daysSinceEpoch_def daysBefore_def isLeap_def)
  have f15: "Weekday (time_Date 2024 3 15) = Friday"
    unfolding Weekday_time_Date a Friday_def by simp
  have f8: "Weekday (time_Date 2024 3 8) = Friday"
    unfolding Weekday_time_Date a Friday_def by simp
  have "(15::int) \<le> 15 \<and> (15::int) \<le> 21 \<and> Weekday (time_Date 2024 3 15) = Friday"
    using f15 by simp
  then have t: "time_Date 2024 3 15 = thirdFriday 2024 3"
    using thirdFriday_is_third_Friday [of 2024 3] by blast
  have "(1::int) \<le> 8 \<and> (8::int) < 15"
    by simp
  then have "time_Date 2024 3 8 = AddDays (thirdFriday 2024 3) (- 7)
           \<or> time_Date 2024 3 8 = AddDays (thirdFriday 2024 3) (- 14)"
    using f8 thirdFriday_is_third_Friday [of 2024 3] by blast
  moreover have "time_Date 2024 3 8 \<noteq> AddDays (thirdFriday 2024 3) (- 14)"
    unfolding t [symmetric] AddDays_time_Date time_Date_eq_iff by simp
  ultimately have "time_Date 2024 3 8 = AddDays (thirdFriday 2024 3) (- 7)"
    by blast
  then show ?thesis
    using t f15 f8 by simp
qed

lemma fs_of_simps [simp]:
  "fs_of (fs, ps, e) = fs" "fetched_of (fs, ps, e) = ps" "error_of (fs, ps, e) = e"
  by (simp_all add: fs_of_def fetched_of_def error_of_def)

lemma start_month_period [simp]:
  "startDate (month_period stock year month) = time_Date year month 1"
  "ticker (month_period stock year month) = stock"
  by (simp_all add: month_period_def)

lemma stock_periods_Nil [simp]: "stock_periods env stock [] = []"
  by (simp add: stock_periods_def)

lemma stock_periods_Cons:
  "stock_periods env stock ((year, month) # yms) =
     (if After (time_Date year month 1) (now env year month) then stock_periods env stock yms
      else month_period stock year month # stock_periods env stock yms)"
  by (simp add: stock_periods_def)

lemma stock_months_skip:
  "After (time_Date year month 1) (now env year month) \<Longrightarrow>
   stock_months env stock file ((year, month) # rest) fs fetched =
   stock_months env stock file rest fs fetched"
  by (simp add: Let_def)

lemma stock_months_fail:
  "\<not> After (time_Date year month 1) (now env year month) \<Longrightarrow>
   fetch env (month_period stock year month) = (data, Some e) \<Longrightarrow>
   stock_months env stock file ((year, month) # rest) fs fetched =
   (fs, fetched @ [month_period stock year month], Some (Failed_to_get_OHLC_data e))"
  by (simp add: Let_def)

lemma stock_months_empty:
  "\<not> After (time_Date year month 1) (now env year month) \<Longrightarrow>
   fetch env (month_period stock year month) = ([], None) \<Longrightarrow>
   stock_months env stock file ((year, month) # rest) fs fetched =
   stock_months env stock file rest fs (fetched @ [month_period stock year month])"
  by (simp add: Let_def)

lemma stock_months_write_fail:
  "\<not> After (time_Date year month 1) (now env year month) \<Longrightarrow>
   fetch env (month_period stock year month) = (data, None) \<Longrightarrow> data \<noteq> [] \<Longrightarrow>
   writeDataToFile (line env) fs file data = (fs', Some e) \<Longrightarrow>
   stock_months env stock file ((year, month) # rest) fs fetched =
   (fs', fetched @ [month_period stock year month], Some (Failed_to_write_to_file e))"
  by (simp add: Let_def)

lemma stock_months_write_ok:
  "\<not> After (time_Date year month 1) (now env year month) \<Longrightarrow>
   fetch env (month_period stock year month) = (data, None) \<Longrightarrow> data \<noteq> [] \<Longrightarrow>
   writeDataToFile (line env) fs file data = (fs', None) \<Longrightarrow>
   stock_months env stock file ((year, month) # rest) fs fetched =
   stock_months env stock file rest fs' (fetched @ [month_period stock year month])"
  by (simp add: Let_def)

lemma trace_extend:
  assumes "\<exists>ps. fetched_of r = (fetched @ [p]) @ ps \<and> prefix ps full \<and> (error_of r = None \<longrightarrow> ps = full)"
  shows "\<exists>ps. fetched_of r = fetched @ ps \<and> prefix ps (p # full) \<and> (error_of r = None \<longrightarrow> ps = p # full)"
proof -
  from assms obtain ps where ps: "fetched_of r = (fetched @ [p]) @ ps" "prefix ps full"
    "error_of r = None \<longrightarrow> ps = full"
    by (elim exE conjE)
  have a: "fetched_of r = fetched @ (p # ps)" using ps(1) by simp
  have b: "prefix (p # ps) (p # full)" using ps(2) by simp
  have c: "error_of r = None \<longrightarrow> p # ps = p # full" using ps(3) by blast
  show ?thesis
    using a b c by (intro exI [of _ "p # ps"] conjI)
qed

lemma trace_stop: "\<exists>ps. fetched_of (fs', fetched @ [p], Some e) = fetched @ ps
        \<and> prefix ps (p # full)
        \<and> (error_of (fs', fetched @ [p], Some e) = None \<longrightarrow> ps = p # full)"
  by (rule exI [of _ "[p]"]) simp

lemma stock_months_trace:
  "\<exists>ps. fetched_of (stock_months env stock file yms fs fetched) = fetched @ ps
        \<and> prefix ps (stock_periods env stock yms)
        \<and> (error_of (stock_months env stock file yms fs fetched) = None
             \<longrightarrow> ps = stock_periods env stock yms)"
proof (induction yms arbitrary: fs fetched)
  case Nil
  show ?case by simp
next
  case (Cons ym yms)
  obtain year month where ym: "ym = (year, month)" by (cases ym)
  let ?p = "month_period stock year month"
  show ?case
  proof (cases "After (time_Date year month 1) (now env year month)")
    case True
    have "stock_periods env stock ((year, month) # yms) = stock_periods env stock yms"
      using True by (simp add: stock_periods_Cons)
    then show ?thesis
      unfolding ym stock_months_skip [OF True] using Cons [of fs fetched] by simp
  next
    case False
    have full: "stock_periods env stock ((year, month) # yms) = ?p # stock_periods env stock yms"
      using False by (simp add: stock_periods_Cons)
    have later: "\<exists>ps. fetched_of (stock_months env stock file yms fs' (fetched @ [?p])) = fetched @ ps
        \<and> prefix ps (?p # stock_periods env stock yms)
        \<and> (error_of (stock_months env stock file yms fs' (fetched @ [?p])) = None
             \<longrightarrow> ps = ?p # stock_periods env stock yms)" for fs'
      by (rule trace_extend) (rule Cons)
    obtain data failure where f: "fetch env ?p = (data, failure)" by (cases "fetch env ?p")
    show ?thesis
    proof (cases failure)
      case (Some e)
      show ?thesis
        unfolding ym full stock_months_fail [OF False f [unfolded Some]] by (rule trace_stop)
    next
      case None
      show ?thesis
      proof (cases "data = []")
        case True
        show ?thesis
          unfolding ym full stock_months_empty [OF False f [unfolded None True]] by (rule later)
      next
        case nonempty: False
        obtain fs' werr where w: "writeDataToFile (line env) fs file data = (fs', werr)"
          by (cases "writeDataToFile (line env) fs file data")
        show ?thesis
        proof (cases werr)
          case (Some e)
          show ?thesis
            unfolding ym full stock_months_write_fail [OF False f [unfolded None] nonempty w [unfolded Some]]
            by (rule trace_stop)
        next
          case written: None
          show ?thesis
            unfolding ym full stock_months_write_ok [OF False f [unfolded None] nonempty w [unfolded written]]
            by (rule later)
        qed
      qed
    qed
  qed
qed

lemma contract_periods_simps [simp]:
  "contract_periods contract [] = []"
  "contract_periods contract ((y, i, code) # yqs) =
     quarter_period contract y i code # contract_periods contract yqs"
  by (simp_all add: contract_periods_def)

lemma written_lines_simps [simp]:
  "written_lines env [] = []"
  "written_lines env (ps @ qs) = written_lines env ps @ written_lines env qs"
  by (simp_all add: written_lines_def)

lemma written_lines_single:
  "fetch env p = (data, None) \<Longrightarrow> written_lines env [p] = map (line env) data"
  "fetch env p = (data, Some e) \<Longrightarrow> written_lines env [p] = []"
  by (simp_all add: written_lines_def)

lemma contract_quarters_fail:
  "fetch env (quarter_period contract y i code) = (data, Some e) \<Longrightarrow>
   contract_quarters env contract file ((y, i, code) # rest) fs fetched =
   (fs, fetched @ [quarter_period contract y i code], Some (Failed_to_get_OHLC_data e))"
  by (simp add: Let_def)

lemma contract_quarters_open_fail:
  "fetch env (quarter_period contract y i code) = (data, None) \<Longrightarrow>
   createOrAppendFile_futures fs file = (fs', Some e) \<Longrightarrow>
   contract_quarters env contract file ((y, i, code) # rest) fs fetched =
   (fs', fetched @ [quarter_period contract y i code], Some (Failed_to_open_file_for_appending e))"
  by (simp add: Let_def)

lemma contract_quarters_write_fail:
  "fetch env (quarter_period contract y i code) = (data, None) \<Longrightarrow>
   createOrAppendFile_futures fs file = (fs', None) \<Longrightarrow>
   writeDataToFile (line env) fs' file data = (fs'', Some e) \<Longrightarrow>
   contract_quarters env contract file ((y, i, code) # rest) fs fetched =
   (fs'', fetched @ [quarter_period contract y i code], Some (Failed_to_write_to_file e))"
  by (simp add: Let_def)

lemma contract_quarters_ok:
  "fetch env (quarter_period contract y i code) = (data, None) \<Longrightarrow>
   createOrAppendFile_futures fs file = (fs', None) \<Longrightarrow>
   writeDataToFile (line env) fs' file data = (fs'', None) \<Longrightarrow>
   contract_quarters env contract file ((y, i, code) # rest) fs fetched =
   contract_quarters env contract file rest fs'' (fetched @ [quarter_period contract y i code])"
  by (simp add: Let_def)

lemma contract_quarters_trace:
  "\<exists>ps. fetched_of (contract_quarters env contract file yqs fs fetched) = fetched @ ps
        \<and> prefix ps (contract_periods contract yqs)
        \<and> (error_of (contract_quarters env contract file yqs fs fetched) = None
             \<longrightarrow> ps = contract_periods contract yqs)"
proof (induction yqs arbitrary: fs fetched)
  case Nil
  show ?case by simp
next
  case (Cons yq yqs)
  obtain y i code where yq: "yq = (y, i, code)" by (cases yq)
  let ?p = "quarter_period contract y i code"
  have later: "\<exists>ps. fetched_of (contract_quarters env contract file yqs fs' (fetched @ [?p])) = fetched @ ps
      \<and> prefix ps (?p # contract_periods contract yqs)
      \<and> (error_of (contract_quarters env contract file yqs fs' (fetched @ [?p])) = None
           \<longrightarrow> ps = ?p # contract_periods contract yqs)" for fs'
    by (rule trace_extend) (rule Cons)
  obtain data failure where f: "fetch env ?p = (data, failure)" by (cases "fetch env ?p")
  show ?case
  proof (cases failure)
    case (Some e)
    show ?thesis
      unfolding yq contract_periods_simps contract_quarters_fail [OF f [unfolded Some]]
      by (rule trace_stop)
  next
    case None
    obtain fs' oerr where o: "createOrAppendFile_futures fs file = (fs', oerr)"
      by (cases "createOrAppendFile_futures fs file")
    show ?thesis
    proof (cases oerr)
      case (Some e)
      show ?thesis
        unfolding yq contract_periods_simps
          contract_quarters_open_fail [OF f [unfolded None] o [unfolded Some]]
        by (rule trace_stop)
    next
      case opened: None
      obtain fs'' werr where w: "writeDataToFile (line env) fs' file data = (fs'', werr)"
        by (cases "writeDataToFile (line env) fs' file data")
      show ?thesis
      proof (cases werr)
        case (Some e)
        show ?thesis
          unfolding yq contract_periods_simps
            contract_quarters_write_fail [OF f [unfolded None] o [unfolded opened] w [unfolded Some]]
          by (rule trace_stop)
      next
        case written: None
        show ?thesis
          unfolding yq contract_periods_simps
            contract_quarters_ok [OF f [unfolded None] o [unfolded opened] w [unfolded written]]
          by (rule later)
      qed
    qed
  qed
qed

lemma stock_worker_trace:
  "prefix (fetched_of (stock_worker env yearStart yearEnd stock fs))
     (stock_periods env stock (year_months yearStart yearEnd))
   \<and> (error_of (stock_worker env yearStart yearEnd stock fs) = None \<longrightarrow>
        fetched_of (stock_worker env yearStart yearEnd stock fs) =
        stock_periods env stock (year_months yearStart yearEnd))"
proof -
  obtain fs' e where c: "createOrAppendFile fs (stock_file stock) True = (fs', e)"
    by (cases "createOrAppendFile fs (stock_file stock) True")
  show ?thesis
  proof (cases e)
    case (Some err)
    then show ?thesis using c by (simp add: stock_worker_def)
  next
    case None
    let ?r = "stock_months env stock (stock_file stock) (year_months yearStart yearEnd) fs' []"
    have w: "stock_worker env yearStart yearEnd stock fs = ?r"
      using c None by (simp add: stock_worker_def)
    from stock_months_trace [of env stock "stock_file stock" "year_months yearStart yearEnd" fs' "[]"]
    obtain ps where ps: "fetched_of ?r = [] @ ps"
      "prefix ps (stock_periods env stock (year_months yearStart yearEnd))"
      "error_of ?r = None \<longrightarrow> ps = stock_periods env stock (year_months yearStart yearEnd)"
      by (elim exE conjE)
    have "fetched_of ?r = ps" using ps(1) by simp
    then show ?thesis
      unfolding w using ps(2,3) by blast
  qed
qed

lemma contract_run_trace:
  "prefix (fetched_of (contract_run env contract file yearBegin yearEnd fs))
     (contract_periods contract (year_quarters yearBegin yearEnd))
   \<and> (error_of (contract_run env contract file yearBegin yearEnd fs) = None \<longrightarrow>
        fetched_of (contract_run env contract file yearBegin yearEnd fs) =
        contract_periods contract (year_quarters yearBegin yearEnd))"
proof -
  obtain fs' e where c: "os_Create fs file = (fs', e)"
    by (cases "os_Create fs file")
  show ?thesis
  proof (cases e)
    case (Some err)
    then show ?thesis using c by (simp add: contract_run_def)
  next
    case None
    obtain fs'' e' where h: "WriteString fs' file header = (fs'', e')"
      by (cases "WriteString fs' file header")
    show ?thesis
    proof (cases e')
      case (Some err)
      then show ?thesis using c None h by (simp add: contract_run_def)
    next
      case ok: None
      let ?r = "contract_quarters env contract file (year_quarters yearBegin yearEnd) fs'' []"
      have w: "contract_run env contract file yearBegin yearEnd fs = ?r"
        using c None h ok by (simp add: contract_run_def)
      from contract_quarters_trace [of env contract "file" "year_quarters yearBegin yearEnd" fs'' "[]"]
      obtain ps where ps: "fetched_of ?r = [] @ ps"
        "prefix ps (contract_periods contract (year_quarters yearBegin yearEnd))"
        "error_of ?r = None \<longrightarrow> ps = contract_periods contract (year_quarters yearBegin yearEnd)"
        by (elim exE conjE)
      have "fetched_of ?r = ps" using ps(1) by simp
      then show ?thesis
        unfolding w using ps(2,3) by blast
    qed
  qed
qed

lemma contract_worker_cases:
  "contract_worker env currentDir yearBegin yearEnd contract fs =
     (fst (os_Remove fs (contract_file currentDir contract)), [],
      Some (Failed_to_remove_existing_file ErrOther))
   \<or> contract_worker env currentDir yearBegin yearEnd contract fs =
     contract_run env contract (contract_file currentDir contract) yearBegin yearEnd
       (fst (os_Remove fs (contract_file currentDir contract)))"
  by (cases "os_Remove fs (contract_file currentDir contract)")
     (auto simp: contract_worker_def Let_def os_IsNotExist_def os_Remove_def
       split: option.splits if_splits)

lemma contract_worker_trace:
  "prefix (fetched_of (contract_worker env currentDir yearBegin yearEnd contract fs))
     (contract_periods contract (year_quarters yearBegin yearEnd))
   \<and> (error_of (contract_worker env currentDir yearBegin yearEnd contract fs) = None \<longrightarrow>
        fetched_of (contract_worker env currentDir yearBegin yearEnd contract fs) =
        contract_periods contract (year_quarters yearBegin yearEnd))"
  using contract_worker_cases [of env currentDir yearBegin yearEnd contract fs]
    contract_run_trace [of env contract "contract_file currentDir contract" yearBegin yearEnd
      "fst (os_Remove fs (contract_file currentDir contract))"]
  by (elim disjE) simp_all

lemma stock_periods_mem:
  assumes "p \<in> set (stock_periods env stock yms)"
  shows "\<exists>year month. (year, month) \<in> set yms \<and> p = month_period stock year month
           \<and> \<not> After (startDate p) (now env year month)"
proof -
  from assms obtain ym where ym: "ym \<in> set yms" "p = (case ym of (year, month) \<Rightarrow> month_period stock year month)"
    "case ym of (year, month) \<Rightarrow> \<not> After (time_Date year month 1) (now env year month)"
    unfolding stock_periods_def by auto
  obtain year month where "ym = (year, month)" by (cases ym)
  then show ?thesis
    using ym by (intro exI [of _ year] exI [of _ month]) simp
qed

lemma expiry_bounds: "first_day k + 14 \<le> expiry k \<and> expiry k \<le> first_day k + 20"
proof -
  define r where "r = (12 - (first_day k + 15) mod 7) mod 7"
  have "0 \<le> r" "r < 7" by (simp_all add: r_def)
  moreover have "expiry k = first_day k + 14 + r" by (simp add: expiry_def r_def)
  ultimately show ?thesis by linarith
qed

lemma expiry_less: "a < b \<Longrightarrow> expiry a < expiry b"
proof -
  assume "a < b"
  then have "a \<le> b" by simp
  then have "first_day a + 28 * (b - a) \<le> first_day b" by (rule first_day_mono)
  moreover have "28 \<le> 28 * (b - a)" using \<open>a < b\<close> by simp
  ultimately show ?thesis
    using expiry_bounds [of a] expiry_bounds [of b] by linarith
qed

lemma expiry_mono: "a \<le> b \<Longrightarrow> expiry a \<le> expiry b"
  using expiry_less [of a b] by (cases "a = b") simp_all

lemma thirdFriday_expiry: "thirdFriday y m = expiry (12 * y + (m - 1)) * nsPerDay"
proof -
  let ?k = "12 * y + (m - 1)"
  have a: "absDays y m 1 = first_day ?k"
    using absDays_first_day [of y m 1] by simp
  have "absDays y m (thirdFriday_day y m) = first_day ?k + (thirdFriday_day y m - 1)"
    by (rule absDays_first_day)
  also have "\<dots> = expiry ?k"
    unfolding thirdFriday_day_def a expiry_def by simp
  finally show ?thesis
    by (simp add: thirdFriday_time_Date time_Date_def)
qed

lemma times_nsPerDay_less: "a * nsPerDay < b * nsPerDay \<longleftrightarrow> a < b"
  using nsPerDay_pos by simp

lemma times_nsPerDay_le: "a * nsPerDay \<le> b * nsPerDay \<longleftrightarrow> a \<le> b"
  using nsPerDay_pos by simp

lemma quarter_period_eq:
  "quarter_period contract y i code =
     \<lparr>ticker = contract @ code @ Sprintf_d (y smod 10),
      startDate = AddDays (thirdFriday (if i = 0 then y - 1 else y)
                                       (if i = 0 then 12 else int i * 3)) (- 1),
      endDate = AddDays (thirdFriday y (int i * 3 + 3)) (- 2)\<rparr>"
  by (simp add: quarter_period_def Let_def)

lemma quarter_period_dates:
  "startDate (quarter_period contract y i code) = (expiry (12 * y + 3 * int i - 1) - 1) * nsPerDay"
  "endDate (quarter_period contract y i code) = (expiry (12 * y + 3 * int i + 2) - 2) * nsPerDay"
proof -
  have e: "12 * y + (int i * 3 + 3 - 1) = 12 * y + 3 * int i + 2"
    by simp
  have b0: "12 * (y - 1) + (12 - 1) = 12 * y + 3 * int 0 - 1"
    by simp
  have b1: "12 * y + (int i * 3 - 1) = 12 * y + 3 * int i - 1"
    by simp
  have "startDate (quarter_period contract y i code) =
      AddDays (thirdFriday (if i = 0 then y - 1 else y) (if i = 0 then 12 else int i * 3)) (- 1)"
    unfolding quarter_period_eq by simp
  also have "\<dots> = (expiry (12 * y + 3 * int i - 1) - 1) * nsPerDay"
  proof (cases "i = 0")
    case True
    show ?thesis
      unfolding True if_True thirdFriday_expiry b0 AddDays_def by (simp add: algebra_simps)
  next
    case False
    show ?thesis
      using False unfolding thirdFriday_expiry AddDays_def by (simp add: b1 algebra_simps)
  qed
  finally show "startDate (quarter_period contract y i code) =
      (expiry (12 * y + 3 * int i - 1) - 1) * nsPerDay" .
  have "endDate (quarter_period contract y i code) = AddDays (thirdFriday y (int i * 3 + 3)) (- 2)"
    unfolding quarter_period_eq by simp
  also have "\<dots> = (expiry (12 * y + 3 * int i + 2) - 2) * nsPerDay"
    unfolding thirdFriday_expiry e AddDays_def by (simp add: algebra_simps)
  finally show "endDate (quarter_period contract y i code) =
      (expiry (12 * y + 3 * int i + 2) - 2) * nsPerDay" .
qed

lemma quarter_period_within:
  "startDate (quarter_period contract y i code) \<le> endDate (quarter_period contract y i code)"
proof -
  have "expiry (12 * y + 3 * int i - 1) < expiry (12 * y + 3 * int i + 2)"
    by (rule expiry_less) simp
  then show ?thesis
    unfolding quarter_period_dates times_nsPerDay_le by simp
qed

lemma quarter_period_before:
  assumes "4 * y + int i < 4 * y' + int i'" and "i < 4" and "i' < 4"
  shows "endDate (quarter_period contract y i code) < startDate (quarter_period contract y' i' code')"
proof -
  have "12 * y + 3 * int i + 2 \<le> 12 * y' + 3 * int i' - 1"
    using assms by linarith
  then have "expiry (12 * y + 3 * int i + 2) \<le> expiry (12 * y' + 3 * int i' - 1)"
    by (rule expiry_mono)
  then show ?thesis
    unfolding quarter_period_dates times_nsPerDay_less by simp
qed

lemma month_period_dates:
  "startDate (month_period stock year month) = first_day (12 * year + (month - 1)) * nsPerDay"
  "endDate (month_period stock year month) = (first_day (12 * year + month) - 1) * nsPerDay"
proof -
  show "startDate (month_period stock year month) = first_day (12 * year + (month - 1)) * nsPerDay"
    by (simp add: month_period_def time_Date_def absDays_first_day [of year month 1])
  have "absDays year (month + 1) 0 = first_day (12 * year + month) - 1"
    using absDays_first_day [of year "month + 1" 0] by simp
  then show "endDate (month_period stock year month) = (first_day (12 * year + month) - 1) * nsPerDay"
    by (simp add: month_period_def time_Date_def)
qed

lemma month_period_within:
  "startDate (month_period stock year month) \<le> endDate (month_period stock year month)"
proof -
  have "first_day (12 * year + (month - 1)) + 28 \<le> first_day (12 * year + (month - 1) + 1)"
    using first_day_step [of "12 * year + (month - 1)"] by blast
  moreover have "12 * year + (month - 1) + 1 = 12 * year + month" by simp
  ultimately have "first_day (12 * year + (month - 1)) \<le> first_day (12 * year + month) - 1"
    by simp
  then show ?thesis
    unfolding month_period_dates times_nsPerDay_le .
qed

lemma month_period_before:
  assumes "12 * year + month < 12 * year' + month'"
  shows "endDate (month_period stock year month) < startDate (month_period stock' year' month')"
proof -
  have "12 * year + month \<le> 12 * year' + (month' - 1)"
    using assms by simp
  then have "first_day (12 * year + month) \<le> first_day (12 * year' + (month' - 1))"
    using first_day_mono [of "12 * year + month" "12 * year' + (month' - 1)"] by simp
  then show ?thesis
    unfolding month_period_dates times_nsPerDay_less by simp
qed

lemma written_lines_Cons: "written_lines env (p # ps) = written_lines env [p] @ written_lines env ps"
  using written_lines_simps(2) [of env "[p]" ps] by simp

lemma append_lines_Nil: "files fs file = Some c \<Longrightarrow> append_lines fs file c [] = fs"
  by (simp add: append_lines_def map_upd_triv)

lemma append_lines_full: "writable fs = 0 \<Longrightarrow> files fs file = Some c \<Longrightarrow> append_lines fs file c ls = fs"
  by (simp add: append_lines_def map_upd_triv)

lemma append_lines_append:
  "append_lines (append_lines fs file c xs) file (c @ take (writable fs) xs) ys =
   append_lines fs file c (xs @ ys)"
  by (simp add: append_lines_def)

lemma append_lines_files [simp]:
  "files (append_lines fs file c ls) file = Some (c @ take (writable fs) ls)"
  "other \<noteq> file \<Longrightarrow> files (append_lines fs file c ls) other = files fs other"
  "denied (append_lines fs file c ls) = denied fs"
  "writable (append_lines fs file c ls) = writable fs - length ls"
  by (simp_all add: append_lines_def)

lemma append_lines_created:
  "append_lines (fs\<lparr>files := (files fs)(file \<mapsto> c')\<rparr>) file c ls = append_lines fs file c ls"
  by (simp add: append_lines_def)

lemma WriteString_append:
  "files fs file = Some c \<Longrightarrow> file \<notin> denied fs \<Longrightarrow>
   WriteString fs file s =
     (append_lines fs file c [s], if writable fs = 0 then Some ErrOther else None)"
  by (cases "writable fs") (simp_all add: WriteString_def append_lines_def map_upd_triv)

lemma writeDataToFile_append:
  "files fs file = Some c \<Longrightarrow> file \<notin> denied fs \<Longrightarrow>
   writeDataToFile fmt fs file data =
     (append_lines fs file c (map fmt data),
      if length data \<le> writable fs then None else Some ErrOther)"
proof (induction data arbitrary: fs c)
  case Nil
  then show ?case by (simp add: append_lines_Nil)
next
  case (Cons d data)
  have w: "WriteString fs file (fmt d) =
      (append_lines fs file c [fmt d], if writable fs = 0 then Some ErrOther else None)"
    using Cons.prems by (rule WriteString_append)
  show ?case
  proof (cases "writable fs = 0")
    case True
    then show ?thesis
      using w Cons.prems by (simp add: append_lines_full)
  next
    case False
    let ?fs' = "append_lines fs file c [fmt d]"
    have t: "take (writable fs) [fmt d] = [fmt d]" using False by (cases "writable fs") simp_all
    have "writeDataToFile fmt ?fs' file data =
        (append_lines ?fs' file (c @ take (writable fs) [fmt d]) (map fmt data),
         if length data \<le> writable ?fs' then None else Some ErrOther)"
      by (rule Cons.IH) (use Cons.prems in simp_all)
    then have "writeDataToFile fmt ?fs' file data =
        (append_lines fs file c ([fmt d] @ map fmt data),
         if length data \<le> writable fs - 1 then None else Some ErrOther)"
      unfolding append_lines_append by simp
    then show ?thesis
      using w False by auto
  qed
qed

lemma files_extend:
  assumes "\<exists>ps. fetched_of r = (fetched @ [p]) @ ps
              \<and> fs_of r = append_lines (append_lines fs file c ls) file
                            (c @ take (writable fs) ls) (written_lines env ps)"
    and "written_lines env [p] = ls"
  shows "\<exists>ps. fetched_of r = fetched @ ps \<and> fs_of r = append_lines fs file c (written_lines env ps)"
proof -
  from assms(1) obtain ps where ps: "fetched_of r = (fetched @ [p]) @ ps"
    "fs_of r = append_lines (append_lines fs file c ls) file
                 (c @ take (writable fs) ls) (written_lines env ps)"
    by (elim exE conjE)
  have a: "fetched_of r = fetched @ (p # ps)" using ps(1) by simp
  have b: "fs_of r = append_lines fs file c (written_lines env (p # ps))"
    unfolding ps(2) written_lines_Cons [of env p ps] assms(2) append_lines_append ..
  show ?thesis
    using a b by (intro exI [of _ "p # ps"] conjI)
qed

lemma files_stop:
  assumes "written_lines env [p] = ls"
  shows "\<exists>ps. fetched_of (append_lines fs file c ls, fetched @ [p], e) = fetched @ ps
            \<and> fs_of (append_lines fs file c ls, fetched @ [p], e) =
                append_lines fs file c (written_lines env ps)"
  using assms by (intro exI [of _ "[p]"]) simp

lemma stock_months_files:
  assumes "files fs file = Some c" and "file \<notin> denied fs"
  shows "\<exists>ps. fetched_of (stock_months env stock file yms fs fetched) = fetched @ ps
            \<and> fs_of (stock_months env stock file yms fs fetched) =
                append_lines fs file c (written_lines env ps)"
  using assms
proof (induction yms arbitrary: fs fetched c)
  case Nil
  then show ?case by (simp add: append_lines_Nil)
next
  case (Cons ym yms)
  obtain year month where ym: "ym = (year, month)" by (cases ym)
  let ?p = "month_period stock year month"
  have same: "append_lines fs file c [] = fs"
    using Cons.prems(1) by (rule append_lines_Nil)
  show ?case
  proof (cases "After (time_Date year month 1) (now env year month)")
    case True
    show ?thesis
      unfolding ym stock_months_skip [OF True] using Cons.prems by (rule Cons.IH)
  next
    case False
    obtain data failure where f: "fetch env ?p = (data, failure)" by (cases "fetch env ?p")
    show ?thesis
    proof (cases failure)
      case (Some e)
      have "written_lines env [?p] = []"
        using f Some by (simp add: written_lines_single)
      then show ?thesis
        unfolding ym stock_months_fail [OF False f [unfolded Some]]
        using files_stop [of env ?p "[]" fs "file" c fetched] by (simp add: same)
    next
      case None
      have wl: "written_lines env [?p] = map (line env) data"
        using f None by (simp add: written_lines_single)
      show ?thesis
      proof (cases "data = []")
        case True
        have "\<exists>ps. fetched_of (stock_months env stock file yms fs (fetched @ [?p])) = (fetched @ [?p]) @ ps
            \<and> fs_of (stock_months env stock file yms fs (fetched @ [?p])) =
                append_lines fs file c (written_lines env ps)"
          using Cons.prems by (rule Cons.IH)
        then have "\<exists>ps. fetched_of (stock_months env stock file yms fs (fetched @ [?p])) = (fetched @ [?p]) @ ps
            \<and> fs_of (stock_months env stock file yms fs (fetched @ [?p])) =
                append_lines (append_lines fs file c []) file (c @ take (writable fs) [])
                  (written_lines env ps)"
          by (simp add: same)
        then show ?thesis
          unfolding ym stock_months_empty [OF False f [unfolded None True]]
          by (rule files_extend) (simp add: wl True)
      next
        case nonempty: False
        let ?ls = "map (line env) data"
        let ?fs' = "append_lines fs file c ?ls"
        have w: "writeDataToFile (line env) fs file data =
            (?fs', if length data \<le> writable fs then None else Some ErrOther)"
          using Cons.prems by (rule writeDataToFile_append)
        show ?thesis
        proof (cases "length data \<le> writable fs")
          case False
          then have w': "writeDataToFile (line env) fs file data = (?fs', Some ErrOther)"
            using w by simp
          show ?thesis
            unfolding ym stock_months_write_fail [OF \<open>\<not> After (time_Date year month 1) (now env year month)\<close>
                f [unfolded None] nonempty w']
            using wl by (rule files_stop)
        next
          case True
          then have w': "writeDataToFile (line env) fs file data = (?fs', None)"
            using w by simp
          have "\<exists>ps. fetched_of (stock_months env stock file yms ?fs' (fetched @ [?p])) = (fetched @ [?p]) @ ps
              \<and> fs_of (stock_months env stock file yms ?fs' (fetched @ [?p])) =
                  append_lines ?fs' file (c @ take (writable fs) ?ls) (written_lines env ps)"
            by (rule Cons.IH) (use Cons.prems in simp_all)
          then show ?thesis
            unfolding ym stock_months_write_ok [OF \<open>\<not> After (time_Date year month 1) (now env year month)\<close>
                f [unfolded None] nonempty w']
            by (rule files_extend) (rule wl)
        qed
      qed
    qed
  qed
qed

lemma createOrAppendFile_futures_existing:
  "files fs file = Some c \<Longrightarrow> file \<notin> denied fs \<Longrightarrow> createOrAppendFile_futures fs file = (fs, None)"
  by (simp add: createOrAppendFile_futures_def os_Stat_def os_IsNotExist_def os_OpenFile_def)

lemma contract_quarters_files:
  assumes "files fs file = Some c" and "file \<notin> denied fs"
  shows "\<exists>ps. fetched_of (contract_quarters env contract file yqs fs fetched) = fetched @ ps
            \<and> fs_of (contract_quarters env contract file yqs fs fetched) =
                append_lines fs file c (written_lines env ps)"
  using assms
proof (induction yqs arbitrary: fs fetched c)
  case Nil
  then show ?case by (simp add: append_lines_Nil)
next
  case (Cons yq yqs)
  obtain y i code where yq: "yq = (y, i, code)" by (cases yq)
  let ?p = "quarter_period contract y i code"
  have same: "append_lines fs file c [] = fs"
    using Cons.prems(1) by (rule append_lines_Nil)
  obtain data failure where f: "fetch env ?p = (data, failure)" by (cases "fetch env ?p")
  show ?case
  proof (cases failure)
    case (Some e)
    have "written_lines env [?p] = []"
      using f Some by (simp add: written_lines_single)
    then show ?thesis
      unfolding yq contract_quarters_fail [OF f [unfolded Some]]
      using files_stop [of env ?p "[]" fs "file" c fetched] by (simp add: same)
  next
    case None
    have wl: "written_lines env [?p] = map (line env) data"
      using f None by (simp add: written_lines_single)
    let ?ls = "map (line env) data"
    let ?fs' = "append_lines fs file c ?ls"
    have o: "createOrAppendFile_futures fs file = (fs, None)"
      using Cons.prems by (rule createOrAppendFile_futures_existing)
    have w: "writeDataToFile (line env) fs file data =
        (?fs', if length data \<le> writable fs then None else Some ErrOther)"
      using Cons.prems by (rule writeDataToFile_append)
    show ?thesis
    proof (cases "length data \<le> writable fs")
      case False
      then have w': "writeDataToFile (line env) fs file data = (?fs', Some ErrOther)"
        using w by simp
      show ?thesis
        unfolding yq contract_quarters_write_fail [OF f [unfolded None] o w']
        using wl by (rule files_stop)
    next
      case True
      then have w': "writeDataToFile (line env) fs file data = (?fs', None)"
        using w by simp
      have "\<exists>ps. fetched_of (contract_quarters env contract file yqs ?fs' (fetched @ [?p])) = (fetched @ [?p]) @ ps
          \<and> fs_of (contract_quarters env contract file yqs ?fs' (fetched @ [?p])) =
              append_lines ?fs' file (c @ take (writable fs) ?ls) (written_lines env ps)"
        by (rule Cons.IH) (use Cons.prems in simp_all)
      then show ?thesis
        unfolding yq contract_quarters_ok [OF f [unfolded None] o w']
        by (rule files_extend) (rule wl)
    qed
  qed
qed

lemma createOrAppendFile_new:
  "files fs file = None \<Longrightarrow> file \<notin> denied fs \<Longrightarrow>
   createOrAppendFile fs file True =
     (append_lines fs file [] [header], if writable fs = 0 then Some ErrOther else None)"
  using WriteString_append [of "fs\<lparr>files := (files fs)(file \<mapsto> [])\<rparr>" "file" "[]" "header"]
  by (simp add: createOrAppendFile_def os_Stat_def os_IsNotExist_def os_Create_def
      append_lines_created)

lemma createOrAppendFile_existing:
  "files fs file = Some c \<Longrightarrow> file \<notin> denied fs \<Longrightarrow>
   createOrAppendFile fs file writeHeader = (fs, None)"
  by (simp add: createOrAppendFile_def os_Stat_def os_IsNotExist_def os_OpenFile_def)

lemma createOrAppendFile_denied:
  "file \<in> denied fs \<Longrightarrow> createOrAppendFile fs file writeHeader = (fs, Some ErrOther)"
  by (simp add: createOrAppendFile_def os_Stat_def os_IsNotExist_def os_OpenFile_def)

lemma take_header: "0 < n \<Longrightarrow> take n [h] = [h]"
  by (cases n) simp_all

lemma stock_worker_files:
  assumes "stock_file stock \<notin> denied fs"
  shows "fs_of (stock_worker env yearStart yearEnd stock fs) =
         append_lines fs (stock_file stock)
           (case files fs (stock_file stock) of None \<Rightarrow> [] | Some old \<Rightarrow> old)
           ((case files fs (stock_file stock) of None \<Rightarrow> [header] | Some old \<Rightarrow> [])
            @ written_lines env (fetched_of (stock_worker env yearStart yearEnd stock fs)))"
proof (cases "files fs (stock_file stock)")
  case None
  let ?file = "stock_file stock"
  let ?fs' = "append_lines fs ?file [] [header]"
  have c: "createOrAppendFile fs ?file True =
      (?fs', if writable fs = 0 then Some ErrOther else None)"
    using None assms by (rule createOrAppendFile_new)
  show ?thesis
  proof (cases "writable fs = 0")
    case True
    then have "stock_worker env yearStart yearEnd stock fs =
        (?fs', [], Some (Failed_to_create_or_open_file ErrOther))"
      using c by (simp add: stock_worker_def)
    then show ?thesis
      using None by simp
  next
    case False
    let ?r = "stock_months env stock ?file (year_months yearStart yearEnd) ?fs' []"
    have w: "stock_worker env yearStart yearEnd stock fs = ?r"
      using c False by (simp add: stock_worker_def)
    have "\<exists>ps. fetched_of ?r = [] @ ps
              \<and> fs_of ?r = append_lines ?fs' ?file ([] @ take (writable fs) [header])
                              (written_lines env ps)"
      by (rule stock_months_files) (use assms in simp_all)
    then have "fs_of ?r = append_lines ?fs' ?file ([] @ take (writable fs) [header])
                              (written_lines env (fetched_of ?r))"
      by auto
    then have "fs_of ?r = append_lines fs ?file [] ([header] @ written_lines env (fetched_of ?r))"
      unfolding append_lines_append .
    then show ?thesis
      unfolding w using None by simp
  qed
next
  case (Some old)
  let ?r = "stock_months env stock (stock_file stock) (year_months yearStart yearEnd) fs []"
  have w: "stock_worker env yearStart yearEnd stock fs = ?r"
    using createOrAppendFile_existing [OF Some assms] by (simp add: stock_worker_def)
  have "\<exists>ps. fetched_of ?r = [] @ ps
            \<and> fs_of ?r = append_lines fs (stock_file stock) old (written_lines env ps)"
    using Some assms by (rule stock_months_files)
  then have "fs_of ?r = append_lines fs (stock_file stock) old (written_lines env (fetched_of ?r))"
    by auto
  then show ?thesis
    unfolding w using Some by simp
qed

lemma stock_worker_header_fails:
  "stock_file stock \<notin> denied fs \<Longrightarrow> files fs (stock_file stock) = None \<Longrightarrow> writable fs = 0 \<Longrightarrow>
   stock_worker env yearStart yearEnd stock fs =
   (fs\<lparr>files := (files fs)(stock_file stock \<mapsto> [])\<rparr>, [],
    Some (Failed_to_create_or_open_file ErrOther))"
  by (simp add: stock_worker_def createOrAppendFile_new append_lines_def)

lemma stock_worker_denied:
  "stock_file stock \<in> denied fs \<Longrightarrow>
   stock_worker env yearStart yearEnd stock fs =
   (fs, [], Some (Failed_to_create_or_open_file ErrOther))"
  by (simp add: stock_worker_def createOrAppendFile_denied)

lemma contract_run_files:
  assumes "file \<notin> denied fs"
  shows "fs_of (contract_run env contract file yearBegin yearEnd fs) =
         append_lines fs file []
           ([header] @ written_lines env
              (fetched_of (contract_run env contract file yearBegin yearEnd fs)))"
proof -
  let ?fs0 = "fs\<lparr>files := (files fs)(file \<mapsto> [])\<rparr>"
  let ?fs' = "append_lines fs file [] [header]"
  have c: "os_Create fs file = (?fs0, None)"
    using assms by (simp add: os_Create_def)
  have h: "WriteString ?fs0 file header = (?fs', if writable fs = 0 then Some ErrOther else None)"
    using assms WriteString_append [of ?fs0 "file" "[]" "header"]
    by (simp add: append_lines_created)
  show ?thesis
  proof (cases "writable fs = 0")
    case True
    then have "contract_run env contract file yearBegin yearEnd fs =
        (?fs', [], Some (Failed_to_write_header ErrOther))"
      using c h by (simp add: contract_run_def)
    then show ?thesis by simp
  next
    case False
    let ?r = "contract_quarters env contract file (year_quarters yearBegin yearEnd) ?fs' []"
    have w: "contract_run env contract file yearBegin yearEnd fs = ?r"
      using c h False by (simp add: contract_run_def)
    have "\<exists>ps. fetched_of ?r = [] @ ps
              \<and> fs_of ?r = append_lines ?fs' file ([] @ take (writable fs) [header])
                              (written_lines env ps)"
      by (rule contract_quarters_files) (use assms in simp_all)
    then have "fs_of ?r = append_lines ?fs' file ([] @ take (writable fs) [header])
                              (written_lines env (fetched_of ?r))"
      by auto
    then have "fs_of ?r = append_lines fs file [] ([header] @ written_lines env (fetched_of ?r))"
      unfolding append_lines_append .
    then show ?thesis
      unfolding w .
  qed
qed

lemma contract_run_header_fails:
  "file \<notin> denied fs \<Longrightarrow> writable fs = 0 \<Longrightarrow>
   contract_run env contract file yearBegin yearEnd fs =
   (fs\<lparr>files := (files fs)(file \<mapsto> [])\<rparr>, [], Some (Failed_to_write_header ErrOther))"
  by (simp add: contract_run_def os_Create_def WriteString_def)

lemma contract_run_removed:
  "file \<notin> denied fs \<Longrightarrow>
   contract_run env contract file yearBegin yearEnd (fs\<lparr>files := (files fs)(file := None)\<rparr>) =
   contract_run env contract file yearBegin yearEnd fs"
  by (simp add: contract_run_def os_Create_def)

lemma contract_worker_run:
  "contract_file currentDir contract \<notin> denied fs \<Longrightarrow>
   contract_worker env currentDir yearBegin yearEnd contract fs =
   contract_run env contract (contract_file currentDir contract) yearBegin yearEnd fs"
  using contract_run_removed [of "contract_file currentDir contract" fs env contract yearBegin yearEnd]
  by (simp add: contract_worker_def os_Remove_def os_IsNotExist_def Let_def)

lemma contract_worker_denied:
  "contract_file currentDir contract \<in> denied fs \<Longrightarrow>
   contract_worker env currentDir yearBegin yearEnd contract fs =
   (fs, [], Some (Failed_to_remove_existing_file ErrOther))"
  by (simp add: contract_worker_def os_Remove_def os_IsNotExist_def Let_def)

text \<open>
  Claim C9, as amended. In every run of a worker whose file can be opened, the strings
  written to the file are, in this order and up to the first write that fails: for the
  shares worker (Append) the header, only if the file did not exist, then the data lines,
  after the old content of an existing file; for the futures worker (Replace) the header
  and then the data lines, in a fresh file, whatever the file held before. So the header
  is written at most once, before any data line, and only into a new file. It is not
  written at all when its write fails: the worker then stops with an error and leaves the
  new file empty. A worker whose file cannot be opened writes nothing. The data lines
  are the records of the periods fetched, in order.
\<close>

theorem header_written_first:
  "(stock_file stock \<notin> denied fs \<longrightarrow>
      fs_of (stock_worker env yearStart yearEnd stock fs) =
      append_lines fs (stock_file stock)
        (case files fs (stock_file stock) of None \<Rightarrow> [] | Some old \<Rightarrow> old)
        ((case files fs (stock_file stock) of None \<Rightarrow> [header] | Some old \<Rightarrow> [])
         @ written_lines env (fetched_of (stock_worker env yearStart yearEnd stock fs))))
   \<and> (contract_file currentDir contract \<notin> denied fs \<longrightarrow>
      fs_of (contract_worker env currentDir yearBegin yearEnd contract fs) =
      append_lines fs (contract_file currentDir contract) []
        ([header] @ written_lines env
           (fetched_of (contract_worker env currentDir yearBegin yearEnd contract fs))))
   \<and> (stock_file stock \<notin> denied fs \<and> files fs (stock_file stock) = None \<and> writable fs = 0 \<longrightarrow>
      stock_worker env yearStart yearEnd stock fs =
      (fs\<lparr>files := (files fs)(stock_file stock \<mapsto> [])\<rparr>, [],
       Some (Failed_to_create_or_open_file ErrOther)))
   \<and> (contract_file currentDir contract \<notin> denied fs \<and> writable fs = 0 \<longrightarrow>
      contract_worker env currentDir yearBegin yearEnd contract fs =
      (fs\<lparr>files := (files fs)(contract_file currentDir contract \<mapsto> [])\<rparr>, [],
       Some (Failed_to_write_header ErrOther)))
   \<and> (stock_file stock \<in> denied fs \<longrightarrow>
      fs_of (stock_worker env yearStart yearEnd stock fs) = fs)
   \<and> (contract_file currentDir contract \<in> denied fs \<longrightarrow>
      fs_of (contract_worker env currentDir yearBegin yearEnd contract fs) = fs)"
proof (intro conjI impI)
  assume "stock_file stock \<notin> denied fs"
  then show "fs_of (stock_worker env yearStart yearEnd stock fs) =
      append_lines fs (stock_file stock)
        (case files fs (stock_file stock) of None \<Rightarrow> [] | Some old \<Rightarrow> old)
        ((case files fs (stock_file stock) of None \<Rightarrow> [header] | Some old \<Rightarrow> [])
         @ written_lines env (fetched_of (stock_worker env yearStart yearEnd stock fs)))"
    by (rule stock_worker_files)
next
  assume a: "contract_file currentDir contract \<notin> denied fs"
  show "fs_of (contract_worker env currentDir yearBegin yearEnd contract fs) =
      append_lines fs (contract_file currentDir contract) []
        ([header] @ written_lines env
           (fetched_of (contract_worker env currentDir yearBegin yearEnd contract fs)))"
    unfolding contract_worker_run [OF a] using a by (rule contract_run_files)
next
  assume "stock_file stock \<notin> denied fs \<and> files fs (stock_file stock) = None \<and> writable fs = 0"
  then show "stock_worker env yearStart yearEnd stock fs =
      (fs\<lparr>files := (files fs)(stock_file stock \<mapsto> [])\<rparr>, [],
       Some (Failed_to_create_or_open_file ErrOther))"
    by (simp add: stock_worker_header_fails)
next
  assume a: "contract_file currentDir contract \<notin> denied fs \<and> writable fs = 0"
  then have "contract_file currentDir contract \<notin> denied fs" by simp
  then show "contract_worker env currentDir yearBegin yearEnd contract fs =
      (fs\<lparr>files := (files fs)(contract_file currentDir contract \<mapsto> [])\<rparr>, [],
       Some (Failed_to_write_header ErrOther))"
    unfolding contract_worker_run [OF \<open>contract_file currentDir contract \<notin> denied fs\<close>]
    using a by (simp add: contract_run_header_fails)
next
  assume "stock_file stock \<in> denied fs"
  then show "fs_of (stock_worker env yearStart yearEnd stock fs) = fs"
    by (simp add: stock_worker_denied)
next
  assume "contract_file currentDir contract \<in> denied fs"
  then show "fs_of (contract_worker env currentDir yearBegin yearEnd contract fs) = fs"
    by (simp add: contract_worker_denied)
qed

theorem header_written_first_witness:
  "stock_file ''SBER'' \<notin> denied sample_fs
   \<and> files sample_fs (stock_file ''SBER'') = None
   \<and> files (fs_of (stock_worker sample_env 2025 2025 ''SBER'' sample_fs)) (stock_file ''SBER'') =
       Some (header # replicate 6 (line sample_env sample_candle))
   \<and> stock_file ''SBER'' \<notin> denied sample_old_fs
   \<and> files sample_old_fs (stock_file ''SBER'') = Some [header, ''old line'']
   \<and> files (fs_of (stock_worker sample_env 2025 2025 ''SBER'' sample_old_fs)) (stock_file ''SBER'') =
       Some ([header, ''old line''] @ replicate 6 (line sample_env sample_candle))
   \<and> contract_file ''moex_data'' ''SBER'' \<notin> denied sample_old_fs
   \<and> files (fs_of (contract_worker sample_env ''moex_data'' 2025 2026 ''SBER'' sample_old_fs))
         (contract_file ''moex_data'' ''SBER'') =
       Some (header # replicate 4 (line sample_env sample_candle))
   \<and> stock_file ''SBER'' \<notin> denied sample_full_fs
   \<and> files sample_full_fs (stock_file ''SBER'') = None
   \<and> writable sample_full_fs = 0
   \<and> files (fs_of (stock_worker sample_env 2025 2025 ''SBER'' sample_full_fs)) (stock_file ''SBER'') =
       Some []"
proof -
  have d: "stock_file ''SBER'' \<notin> denied sample_fs" "stock_file ''SBER'' \<notin> denied sample_old_fs"
    "contract_file ''moex_data'' ''SBER'' \<notin> denied sample_old_fs"
    "stock_file ''SBER'' \<notin> denied sample_full_fs"
    by (simp_all add: sample_fs_def sample_old_fs_def sample_full_fs_def)
  have f: "files sample_fs (stock_file ''SBER'') = None"
    "files sample_old_fs (stock_file ''SBER'') = Some [header, ''old line'']"
    "files sample_full_fs (stock_file ''SBER'') = None"
    by (simp_all add: sample_fs_def sample_old_fs_def sample_full_fs_def)
  have q: "writable sample_fs = 1000" "writable sample_old_fs = 1000" "writable sample_full_fs = 0"
    by (simp_all add: sample_fs_def sample_old_fs_def sample_full_fs_def)
  have w1: "written_lines sample_env (fetched_of (stock_worker sample_env 2025 2025 ''SBER'' sample_fs)) =
      replicate 6 (line sample_env sample_candle)"
    by code_simp
  have w2: "written_lines sample_env (fetched_of (stock_worker sample_env 2025 2025 ''SBER'' sample_old_fs)) =
      replicate 6 (line sample_env sample_candle)"
    by code_simp
  have w3: "written_lines sample_env
      (fetched_of (contract_worker sample_env ''moex_data'' 2025 2026 ''SBER'' sample_old_fs)) =
      replicate 4 (line sample_env sample_candle)"
    by code_simp
  have a: "files (fs_of (stock_worker sample_env 2025 2025 ''SBER'' sample_fs)) (stock_file ''SBER'') =
       Some (header # replicate 6 (line sample_env sample_candle))"
    using header_written_first [where stock = "''SBER''" and fs = sample_fs and env = sample_env
        and yearStart = 2025 and yearEnd = 2025] d f
    by (simp add: w1 q)
  have b: "files (fs_of (stock_worker sample_env 2025 2025 ''SBER'' sample_old_fs)) (stock_file ''SBER'') =
       Some ([header, ''old line''] @ replicate 6 (line sample_env sample_candle))"
    using header_written_first [where stock = "''SBER''" and fs = sample_old_fs and env = sample_env
        and yearStart = 2025 and yearEnd = 2025] d f
    by (simp add: w2 q)
  have c: "files (fs_of (contract_worker sample_env ''moex_data'' 2025 2026 ''SBER'' sample_old_fs))
         (contract_file ''moex_data'' ''SBER'') =
       Some (header # replicate 4 (line sample_env sample_candle))"
    using header_written_first [where fs = sample_old_fs and currentDir = "''moex_data''"
        and contract = "''SBER''" and env = sample_env and yearBegin = 2025 and yearEnd = 2026] d
    by (simp add: w3 q)
  have e: "files (fs_of (stock_worker sample_env 2025 2025 ''SBER'' sample_full_fs)) (stock_file ''SBER'') =
       Some []"
    using header_written_first [where stock = "''SBER''" and fs = sample_full_fs and env = sample_env
        and yearStart = 2025 and yearEnd = 2025] d f q
    by simp
  show ?thesis
    using a b c e d f q by simp
qed

text \<open>
  The claim as stated, for every run, fails when the write of the header fails: the run
  leaves a new, empty file, and the next run of the shares worker finds the file, writes
  no header and appends its data lines: a file with data lines and no header.
\<close>

theorem header_missing_counterexample:
  "files (fs_of (stock_worker sample_env 2025 2025 ''SBER'' sample_full_fs)) (stock_file ''SBER'') =
      Some []
   \<and> fetched_of (stock_worker sample_env 2025 2025 ''SBER'' sample_full_fs) = []
   \<and> error_of (stock_worker sample_env 2025 2025 ''SBER'' sample_full_fs) =
      Some (Failed_to_create_or_open_file ErrOther)
   \<and> files (fs_of (stock_worker sample_env 2025 2025 ''SBER''
        ((fs_of (stock_worker sample_env 2025 2025 ''SBER'' sample_full_fs))\<lparr>writable := 1000\<rparr>)))
        (stock_file ''SBER'') =
      Some (replicate 6 (line sample_env sample_candle))
   \<and> error_of (stock_worker sample_env 2025 2025 ''SBER''
        ((fs_of (stock_worker sample_env 2025 2025 ''SBER'' sample_full_fs))\<lparr>writable := 1000\<rparr>)) = None
   \<and> header \<notin> set (replicate 6 (line sample_env sample_candle))"
  by code_simp

text \<open>
  Claim C2. The shares worker compares the first day of each month with the clock and
  fetches no month that starts after it. The futures worker has no such comparison: a run
  that ends without an error has fetched every quarter of the year range, whatever the
  clock. In the call of \<^verbatim>\<open>main\<close>, \<^verbatim>\<open>ProcessContracts(2016, 2026, ...)\<close>, run on 2025-06-01,
  the worker of \<open>Si\<close> fetches the contracts \<open>SiU5\<close> and \<open>SiZ5\<close>, whose periods start on
  2025-06-19 and 2025-09-18, after the current date.
\<close>

theorem future_quarters_fetched:
  "(error_of (contract_worker env currentDir yearBegin yearEnd contract fs) = None \<longrightarrow>
      fetched_of (contract_worker env currentDir yearBegin yearEnd contract fs) =
      contract_periods contract (year_quarters yearBegin yearEnd))
   \<and> (\<forall>p \<in> set (fetched_of (stock_worker env yearStart yearLast stock fs)).
        \<exists>year month. (year, month) \<in> set (year_months yearStart yearLast)
          \<and> p = month_period stock year month
          \<and> \<not> After (startDate p) (now env year month))
   \<and> (\<forall>year month. now sample_env year month = time_Date 2025 6 1)
   \<and> error_of (contract_worker sample_env ''.'' 2016 2026 ''Si'' sample_fs) = None
   \<and> drop 38 (fetched_of (contract_worker sample_env ''.'' 2016 2026 ''Si'' sample_fs)) =
       [\<lparr>ticker = ''SiU5'', startDate = time_Date 2025 6 19, endDate = time_Date 2025 9 17\<rparr>,
        \<lparr>ticker = ''SiZ5'', startDate = time_Date 2025 9 18, endDate = time_Date 2025 12 17\<rparr>]
   \<and> After (time_Date 2025 6 19) (time_Date 2025 6 1)
   \<and> After (time_Date 2025 9 18) (time_Date 2025 6 1)"
proof -
  have a: "error_of (contract_worker env currentDir yearBegin yearEnd contract fs) = None \<longrightarrow>
      fetched_of (contract_worker env currentDir yearBegin yearEnd contract fs) =
      contract_periods contract (year_quarters yearBegin yearEnd)"
    using contract_worker_trace [of env currentDir yearBegin yearEnd contract fs] by blast
  have b: "\<forall>p \<in> set (fetched_of (stock_worker env yearStart yearLast stock fs)).
        \<exists>year month. (year, month) \<in> set (year_months yearStart yearLast)
          \<and> p = month_period stock year month
          \<and> \<not> After (startDate p) (now env year month)"
  proof
    fix p
    assume "p \<in> set (fetched_of (stock_worker env yearStart yearLast stock fs))"
    then have "p \<in> set (stock_periods env stock (year_months yearStart yearLast))"
      using stock_worker_trace [of env yearStart yearLast stock fs] set_mono_prefix by blast
    then show "\<exists>year month. (year, month) \<in> set (year_months yearStart yearLast)
          \<and> p = month_period stock year month
          \<and> \<not> After (startDate p) (now env year month)"
      by (rule stock_periods_mem)
  qed
  have c: "\<forall>year month. now sample_env year month = time_Date 2025 6 1"
    by (simp add: sample_env_def)
  have d: "error_of (contract_worker sample_env ''.'' 2016 2026 ''Si'' sample_fs) = None"
    by code_simp
  have "drop 38 (contract_periods ''Si'' (year_quarters 2016 2026)) =
       [\<lparr>ticker = ''SiU5'', startDate = time_Date 2025 6 19, endDate = time_Date 2025 9 17\<rparr>,
        \<lparr>ticker = ''SiZ5'', startDate = time_Date 2025 9 18, endDate = time_Date 2025 12 17\<rparr>]"
    by code_simp
  moreover have "fetched_of (contract_worker sample_env ''.'' 2016 2026 ''Si'' sample_fs) =
      contract_periods ''Si'' (year_quarters 2016 2026)"
    using contract_worker_trace [of sample_env "''.''" 2016 2026 "''Si''" sample_fs] d by blast
  ultimately have e: "drop 38 (fetched_of (contract_worker sample_env ''.'' 2016 2026 ''Si'' sample_fs)) =
       [\<lparr>ticker = ''SiU5'', startDate = time_Date 2025 6 19, endDate = time_Date 2025 9 17\<rparr>,
        \<lparr>ticker = ''SiZ5'', startDate = time_Date 2025 9 18, endDate = time_Date 2025 12 17\<rparr>]"
    by simp
  have f: "After (time_Date 2025 6 19) (time_Date 2025 6 1)"
    by code_simp
  have g: "After (time_Date 2025 9 18) (time_Date 2025 6 1)"
    by code_simp
  show ?thesis
    using a b c d e f g by blast
qed

theorem future_quarters_fetched_witness:
  "error_of (contract_worker sample_env ''.'' 2025 2026 ''Si'' sample_fs) = None
   \<and> fetched_of (contract_worker sample_env ''.'' 2025 2026 ''Si'' sample_fs) =
      contract_periods ''Si'' (year_quarters 2025 2026)
   \<and> length (contract_periods ''Si'' (year_quarters 2025 2026)) = 4
   \<and> month_period ''SBER'' 2025 6 \<in> set (fetched_of (stock_worker sample_env 2025 2025 ''SBER'' sample_fs))
   \<and> \<not> After (startDate (month_period ''SBER'' 2025 6)) (time_Date 2025 6 1)
   \<and> After (startDate (month_period ''SBER'' 2025 7)) (time_Date 2025 6 1)
   \<and> month_period ''SBER'' 2025 7 \<notin> set (fetched_of (stock_worker sample_env 2025 2025 ''SBER'' sample_fs))"
proof -
  let ?f = "fetched_of (stock_worker sample_env 2025 2025 ''SBER'' sample_fs)"
  note t = future_quarters_fetched [of sample_env "''.''" 2025 2026 "''Si''" sample_fs 2025 2025 "''SBER''"]
  have n: "now sample_env year month = time_Date 2025 6 1" for year month
    by (simp add: sample_env_def)
  have e: "error_of (contract_worker sample_env ''.'' 2025 2026 ''Si'' sample_fs) = None"
    by code_simp
  have q: "fetched_of (contract_worker sample_env ''.'' 2025 2026 ''Si'' sample_fs) =
      contract_periods ''Si'' (year_quarters 2025 2026)"
    using t e by blast
  have l: "length (contract_periods ''Si'' (year_quarters 2025 2026)) = 4"
    by code_simp
  have june: "month_period ''SBER'' 2025 6 \<in> set ?f"
    by code_simp
  have july: "After (startDate (month_period ''SBER'' 2025 7)) (time_Date 2025 6 1)"
    by code_simp
  have all: "\<forall>p \<in> set ?f. \<exists>year month. (year, month) \<in> set (year_months 2025 2025)
         \<and> p = month_period ''SBER'' year month
         \<and> \<not> After (startDate p) (now sample_env year month)"
    using t by blast
  have a: "\<not> After (startDate (month_period ''SBER'' 2025 6)) (time_Date 2025 6 1)"
    using all june n by fastforce
  have b: "month_period ''SBER'' 2025 7 \<notin> set ?f"
    using all july n by fastforce
  show ?thesis
    using e q l june a july b by simp
qed

lemma sorted_wrt_concat_map:
  assumes "\<And>x. x \<in> set xs \<Longrightarrow> sorted_wrt R (f x)"
    and "sorted_wrt (\<lambda>x y. \<forall>a \<in> set (f x). \<forall>b \<in> set (f y). R a b) xs"
  shows "sorted_wrt R (concat (map f xs))"
  using assms
proof (induction xs)
  case Nil
  show ?case by simp
next
  case (Cons x xs)
  have a: "sorted_wrt R (f x)" using Cons.prems(1) by simp
  have b: "sorted_wrt R (concat (map f xs))"
    using Cons.IH Cons.prems by simp
  have c: "\<forall>a \<in> set (f x). \<forall>b \<in> set (concat (map f xs)). R a b"
    using Cons.prems(2) by auto
  show ?case
    using a b c by (simp add: sorted_wrt_append)
qed

lemma sorted_wrt_less_upto: "sorted_wrt (<) [i..j::int]"
  using sorted_upto [of i j] distinct_upto [of i j] strict_sorted_iff by blast

lemma sorted_wrt_prefix: "prefix xs ys \<Longrightarrow> sorted_wrt R ys \<Longrightarrow> sorted_wrt R xs"
  by (auto simp: prefix_def sorted_wrt_append)

lemma year_months_sorted:
  "sorted_wrt (\<lambda>a b. month_index a < month_index b) (year_months yearStart yearEnd)"
  unfolding year_months_def
proof (rule sorted_wrt_concat_map)
  fix year :: int
  have "sorted_wrt (\<lambda>m m'. month_index (year, m) < month_index (year, m')) [1..12]"
    by (rule sorted_wrt_mono_rel [OF _ sorted_wrt_less_upto]) (simp add: month_index_def)
  then show "sorted_wrt (\<lambda>a b. month_index a < month_index b) (map (\<lambda>month. (year, month)) [1..12])"
    by (simp add: sorted_wrt_map)
next
  show "sorted_wrt (\<lambda>x y. \<forall>a \<in> set (map (\<lambda>month. (x, month)) [1..12]).
           \<forall>b \<in> set (map (\<lambda>month. (y, month)) [1..12]). month_index a < month_index b)
         [yearStart..yearEnd]"
    by (rule sorted_wrt_mono_rel [OF _ sorted_wrt_less_upto]) (auto simp: month_index_def)
qed

lemma year_months_mem:
  "ym \<in> set (year_months yearStart yearEnd) \<Longrightarrow> 1 \<le> snd ym \<and> snd ym \<le> 12"
  by (auto simp: year_months_def)

lemma stock_periods_sorted:
  "sorted_wrt (\<lambda>p q. endDate p < startDate q) (stock_periods env stock (year_months yearStart yearEnd))"
proof -
  let ?P = "\<lambda>(year, month). \<not> After (time_Date year month 1) (now env year month)"
  have "sorted_wrt (\<lambda>a b. month_index a < month_index b) (filter ?P (year_months yearStart yearEnd))"
    using year_months_sorted by (rule sorted_wrt_filter)
  then have "sorted_wrt (\<lambda>a b. endDate (case a of (year, month) \<Rightarrow> month_period stock year month)
        < startDate (case b of (year, month) \<Rightarrow> month_period stock year month))
      (filter ?P (year_months yearStart yearEnd))"
  proof (rule sorted_wrt_mono_rel [rotated])
    fix a b :: "int \<times> int"
    assume "month_index a < month_index b"
    then have "12 * fst a + snd a < 12 * fst b + snd b"
      by (simp add: month_index_def)
    then have "endDate (month_period stock (fst a) (snd a)) < startDate (month_period stock (fst b) (snd b))"
      by (rule month_period_before)
    then show "endDate (case a of (year, month) \<Rightarrow> month_period stock year month)
        < startDate (case b of (year, month) \<Rightarrow> month_period stock year month)"
      by (simp add: case_prod_beta)
  qed
  then show ?thesis
    unfolding stock_periods_def by (simp add: sorted_wrt_map)
qed

lemma stock_periods_within:
  "p \<in> set (stock_periods env stock yms) \<Longrightarrow> startDate p \<le> endDate p"
  using stock_periods_mem [of p env stock yms] month_period_within by blast

lemma enumerate_codes: "enumerate 0 codes = [(0, ''H''), (1, ''M''), (2, ''U''), (3, ''Z'')]"
  by (simp add: codes_def)

lemma year_quarters_sorted:
  "sorted_wrt (\<lambda>a b. quarter_index a < quarter_index b) (year_quarters yearBegin yearEnd)"
  unfolding year_quarters_def
proof (rule sorted_wrt_concat_map)
  fix y :: int
  show "sorted_wrt (\<lambda>a b. quarter_index a < quarter_index b)
      (map (\<lambda>(i, code). (y, i, code)) (enumerate 0 codes))"
    unfolding enumerate_codes by (simp add: quarter_index_def)
next
  show "sorted_wrt (\<lambda>x y. \<forall>a \<in> set (map (\<lambda>(i, code). (x, i, code)) (enumerate 0 codes)).
           \<forall>b \<in> set (map (\<lambda>(i, code). (y, i, code)) (enumerate 0 codes)).
             quarter_index a < quarter_index b)
         [yearBegin..yearEnd - 1]"
    unfolding enumerate_codes
    by (rule sorted_wrt_mono_rel [OF _ sorted_wrt_less_upto]) (auto simp: quarter_index_def)
qed

lemma year_quarters_mem:
  "yq \<in> set (year_quarters yearBegin yearEnd) \<Longrightarrow>
   yearBegin \<le> fst yq \<and> fst yq < yearEnd \<and> fst (snd yq) < 4 \<and> snd (snd yq) = codes ! fst (snd yq)"
  unfolding year_quarters_def enumerate_codes by (auto simp: codes_def)

lemma contract_periods_sorted:
  "sorted_wrt (\<lambda>p q. endDate p < startDate q) (contract_periods contract (year_quarters yearBegin yearEnd))"
proof -
  let ?f = "\<lambda>(y, i, code). quarter_period contract y i code"
  have "sorted_wrt (\<lambda>a b. endDate (?f a) < startDate (?f b)) (year_quarters yearBegin yearEnd)"
  proof (rule sorted_wrt_mono_rel [OF _ year_quarters_sorted])
    fix a b :: "int \<times> nat \<times> string"
    assume a: "a \<in> set (year_quarters yearBegin yearEnd)"
      and b: "b \<in> set (year_quarters yearBegin yearEnd)"
      and l: "quarter_index a < quarter_index b"
    obtain y i code where ea: "a = (y, i, code)" by (cases a)
    obtain y' i' code' where eb: "b = (y', i', code')" by (cases b)
    have "i < 4" "i' < 4"
      using year_quarters_mem [OF a] year_quarters_mem [OF b] by (simp_all add: ea eb)
    moreover have "4 * y + int i < 4 * y' + int i'"
      using l by (simp add: quarter_index_def ea eb)
    ultimately have "endDate (quarter_period contract y i code) < startDate (quarter_period contract y' i' code')"
      using quarter_period_before by blast
    then show "endDate (?f a) < startDate (?f b)"
      by (simp add: ea eb)
  qed
  then show ?thesis
    unfolding contract_periods_def by (simp add: sorted_wrt_map)
qed

lemma contract_periods_within:
  "p \<in> set (contract_periods contract yqs) \<Longrightarrow> startDate p \<le> endDate p"
  unfolding contract_periods_def using quarter_period_within by auto

text \<open>
  Claim C7. In every run of a worker, of either program and for every year range, the
  periods fetched for the instrument, in the order of the calls, do not overlap and
  increase: each period starts not after it ends, and ends strictly before every later
  period starts (so before the next one). The same holds of the whole sequence the loops
  go through, whether the run is cut short by an error or not.
\<close>

theorem periods_increasing:
  "sorted_wrt (\<lambda>p q. endDate p < startDate q)
     (fetched_of (stock_worker env yearStart yearEnd stock fs))
   \<and> (\<forall>p \<in> set (fetched_of (stock_worker env yearStart yearEnd stock fs)).
        startDate p \<le> endDate p)
   \<and> sorted_wrt (\<lambda>p q. endDate p < startDate q)
     (fetched_of (contract_worker env currentDir yearBegin yearLimit contract fs))
   \<and> (\<forall>p \<in> set (fetched_of (contract_worker env currentDir yearBegin yearLimit contract fs)).
        startDate p \<le> endDate p)
   \<and> sorted_wrt (\<lambda>p q. endDate p < startDate q)
        (stock_periods env stock (year_months yearStart yearEnd))
   \<and> sorted_wrt (\<lambda>p q. endDate p < startDate q)
        (contract_periods contract (year_quarters yearBegin yearLimit))"
proof -
  let ?s = "fetched_of (stock_worker env yearStart yearEnd stock fs)"
  let ?c = "fetched_of (contract_worker env currentDir yearBegin yearLimit contract fs)"
  have ps: "prefix ?s (stock_periods env stock (year_months yearStart yearEnd))"
    using stock_worker_trace [of env yearStart yearEnd stock fs] by blast
  have pc: "prefix ?c (contract_periods contract (year_quarters yearBegin yearLimit))"
    using contract_worker_trace [of env currentDir yearBegin yearLimit contract fs] by blast
  have a: "sorted_wrt (\<lambda>p q. endDate p < startDate q) ?s"
    using ps stock_periods_sorted by (rule sorted_wrt_prefix)
  have b: "\<forall>p \<in> set ?s. startDate p \<le> endDate p"
    using set_mono_prefix [OF ps] stock_periods_within by blast
  have c: "sorted_wrt (\<lambda>p q. endDate p < startDate q) ?c"
    using pc contract_periods_sorted by (rule sorted_wrt_prefix)
  have d: "\<forall>p \<in> set ?c. startDate p \<le> endDate p"
    using set_mono_prefix [OF pc] contract_periods_within by blast
  show ?thesis
    using a b c d stock_periods_sorted contract_periods_sorted by blast
qed

theorem periods_increasing_witness:
  "fetched_of (stock_worker sample_env 2025 2025 ''SBER'' sample_fs) =
     [month_period ''SBER'' 2025 1, month_period ''SBER'' 2025 2, month_period ''SBER'' 2025 3,
      month_period ''SBER'' 2025 4, month_period ''SBER'' 2025 5, month_period ''SBER'' 2025 6]
   \<and> endDate (month_period ''SBER'' 2025 5) < startDate (month_period ''SBER'' 2025 6)
   \<and> startDate (month_period ''SBER'' 2025 6) \<le> endDate (month_period ''SBER'' 2025 6)
   \<and> fetched_of (contract_worker sample_env ''.'' 2025 2026 ''Si'' sample_fs) =
     [quarter_period ''Si'' 2025 0 ''H'', quarter_period ''Si'' 2025 1 ''M'',
      quarter_period ''Si'' 2025 2 ''U'', quarter_period ''Si'' 2025 3 ''Z'']
   \<and> endDate (quarter_period ''Si'' 2025 2 ''U'') < startDate (quarter_period ''Si'' 2025 3 ''Z'')
   \<and> startDate (quarter_period ''Si'' 2025 3 ''Z'') \<le> endDate (quarter_period ''Si'' 2025 3 ''Z'')"
proof -
  note t = periods_increasing [of sample_env 2025 2025 "''SBER''" sample_fs "''.''" 2025 2026 "''Si''"]
  have s: "fetched_of (stock_worker sample_env 2025 2025 ''SBER'' sample_fs) =
     [month_period ''SBER'' 2025 1, month_period ''SBER'' 2025 2, month_period ''SBER'' 2025 3,
      month_period ''SBER'' 2025 4, month_period ''SBER'' 2025 5, month_period ''SBER'' 2025 6]"
    by code_simp
  have c: "fetched_of (contract_worker sample_env ''.'' 2025 2026 ''Si'' sample_fs) =
     [quarter_period ''Si'' 2025 0 ''H'', quarter_period ''Si'' 2025 1 ''M'',
      quarter_period ''Si'' 2025 2 ''U'', quarter_period ''Si'' 2025 3 ''Z'']"
    by code_simp
  have "sorted_wrt (\<lambda>p q. endDate p < startDate q)
     [month_period ''SBER'' 2025 1, month_period ''SBER'' 2025 2, month_period ''SBER'' 2025 3,
      month_period ''SBER'' 2025 4, month_period ''SBER'' 2025 5, month_period ''SBER'' 2025 6]"
    using t unfolding s by blast
  then have a1: "endDate (month_period ''SBER'' 2025 5) < startDate (month_period ''SBER'' 2025 6)"
    by simp
  have "\<forall>p \<in> set [month_period ''SBER'' 2025 1, month_period ''SBER'' 2025 2, month_period ''SBER'' 2025 3,
      month_period ''SBER'' 2025 4, month_period ''SBER'' 2025 5, month_period ''SBER'' 2025 6].
      startDate p \<le> endDate p"
    using t unfolding s by blast
  then have a2: "startDate (month_period ''SBER'' 2025 6) \<le> endDate (month_period ''SBER'' 2025 6)"
    by simp
  have "sorted_wrt (\<lambda>p q. endDate p < startDate q)
     [quarter_period ''Si'' 2025 0 ''H'', quarter_period ''Si'' 2025 1 ''M'',
      quarter_period ''Si'' 2025 2 ''U'', quarter_period ''Si'' 2025 3 ''Z'']"
    using t unfolding c by blast
  then have b1: "endDate (quarter_period ''Si'' 2025 2 ''U'') < startDate (quarter_period ''Si'' 2025 3 ''Z'')"
    by simp
  have "\<forall>p \<in> set [quarter_period ''Si'' 2025 0 ''H'', quarter_period ''Si'' 2025 1 ''M'',
      quarter_period ''Si'' 2025 2 ''U'', quarter_period ''Si'' 2025 3 ''Z'']. startDate p \<le> endDate p"
    using t unfolding c by blast
  then have b2: "startDate (quarter_period ''Si'' 2025 3 ''Z'') \<le> endDate (quarter_period ''Si'' 2025 3 ''Z'')"
    by simp
  show ?thesis
    using s c a1 a2 b1 b2 by blast
qed

lemma upt_4: "[0..<4] = [0, 1, 2, 3]"
  by (simp add: upt_rec)

lemma quarter_period_spec:
  assumes "i < 4"
  shows "quarter_period contract y i (codes ! i) =
     (spec_quarter_period contract y i)\<lparr>ticker := contract @ codes ! i @ Sprintf_d (y smod 10)\<rparr>"
proof -
  from assms consider "i = 0" | "i = 1" | "i = 2" | "i = 3" by linarith
  then show ?thesis
    by cases (simp_all add: quarter_period_eq spec_quarter_period_def codes_def)
qed

lemma quarter_period_spec_nonneg:
  assumes "i < 4" and "0 \<le> y"
  shows "quarter_period contract y i (codes ! i) = spec_quarter_period contract y i"
proof -
  have "y smod 10 = y mod 10"
    using assms(2) by (simp add: smod_nonneg)
  moreover have "codes ! i = [''H'', ''M'', ''U'', ''Z''] ! i"
    by (simp add: codes_def)
  ultimately show ?thesis
    unfolding quarter_period_spec [OF assms(1)]
    by (simp add: spec_quarter_period_def Let_def split: prod.splits)
qed

lemma contract_periods_year_quarters:
  "contract_periods contract (year_quarters yearBegin yearEnd) =
   concat (map (\<lambda>y. map (\<lambda>i. quarter_period contract y i (codes ! i)) [0..<4]) [yearBegin..yearEnd - 1])"
  unfolding contract_periods_def year_quarters_def enumerate_codes upt_4
  by (simp add: map_concat comp_def codes_def)

lemma contract_periods_spec:
  assumes "0 \<le> yearBegin"
  shows "contract_periods contract (year_quarters yearBegin yearEnd) =
     spec_quarter_periods contract yearBegin yearEnd"
proof -
  have "map (\<lambda>y. map (\<lambda>i. quarter_period contract y i (codes ! i)) [0..<4]) [yearBegin..yearEnd - 1] =
      map (\<lambda>y. map (spec_quarter_period contract y) [0..<4]) [yearBegin..yearEnd - 1]"
  proof (rule map_cong [OF refl])
    fix y
    assume "y \<in> set [yearBegin..yearEnd - 1]"
    then have y: "0 \<le> y" using assms by simp
    show "map (\<lambda>i. quarter_period contract y i (codes ! i)) [0..<4] =
        map (spec_quarter_period contract y) [0..<4]"
      by (rule map_cong [OF refl]) (simp add: quarter_period_spec_nonneg y)
  qed
  then show ?thesis
    by (simp only: contract_periods_year_quarters spec_quarter_periods_def)
qed

text \<open>
  Claim C5. \<open>spec_quarter_period\<close> is the period as the specification words it: code and
  month of quarter \<open>i\<close>, the previous quarter (December of the year before for the first
  one), the two third Fridays less one and two days, the ticker with \<open>y mod 10\<close>. For a
  year range that starts at a year not below 0 the futures worker fetches these periods,
  for the years from \<open>yearBegin\<close> to \<open>yearEnd - 1\<close> and the four quarters of each in order:
  all of them in a run that ends without an error, a prefix of them in any run. The code
  computes the digit with \<^verbatim>\<open>%\<close>, which is \<open>smod\<close>: in a year below 0 only the ticker
  differs. Root symbol \<open>Si\<close>, first quarter, 2024 is \<open>SiH4\<close>.
\<close>

theorem quarter_periods_fetched:
  "(0 \<le> yearBegin \<longrightarrow>
      prefix (fetched_of (contract_worker env currentDir yearBegin yearEnd contract fs))
        (spec_quarter_periods contract yearBegin yearEnd)
      \<and> (error_of (contract_worker env currentDir yearBegin yearEnd contract fs) = None \<longrightarrow>
           fetched_of (contract_worker env currentDir yearBegin yearEnd contract fs) =
           spec_quarter_periods contract yearBegin yearEnd))
   \<and> (i < 4 \<longrightarrow>
      quarter_period contract y i (codes ! i) =
      (spec_quarter_period contract y i)\<lparr>ticker := contract @ codes ! i @ Sprintf_d (y smod 10)\<rparr>)
   \<and> (i < 4 \<and> 0 \<le> y \<longrightarrow>
      quarter_period contract y i (codes ! i) = spec_quarter_period contract y i)
   \<and> codes = [''H'', ''M'', ''U'', ''Z'']
   \<and> ticker (spec_quarter_period ''Si'' 2024 0) = ''SiH4''"
proof -
  have a: "0 \<le> yearBegin \<longrightarrow>
      prefix (fetched_of (contract_worker env currentDir yearBegin yearEnd contract fs))
        (spec_quarter_periods contract yearBegin yearEnd)
      \<and> (error_of (contract_worker env currentDir yearBegin yearEnd contract fs) = None \<longrightarrow>
           fetched_of (contract_worker env currentDir yearBegin yearEnd contract fs) =
           spec_quarter_periods contract yearBegin yearEnd)"
  proof
    assume "0 \<le> yearBegin"
    then have "contract_periods contract (year_quarters yearBegin yearEnd) =
        spec_quarter_periods contract yearBegin yearEnd"
      by (rule contract_periods_spec)
    then show "prefix (fetched_of (contract_worker env currentDir yearBegin yearEnd contract fs))
        (spec_quarter_periods contract yearBegin yearEnd)
      \<and> (error_of (contract_worker env currentDir yearBegin yearEnd contract fs) = None \<longrightarrow>
           fetched_of (contract_worker env currentDir yearBegin yearEnd contract fs) =
           spec_quarter_periods contract yearBegin yearEnd)"
      using contract_worker_trace [of env currentDir yearBegin yearEnd contract fs] by simp
  qed
  have b: "i < 4 \<longrightarrow>
      quarter_period contract y i (codes ! i) =
      (spec_quarter_period contract y i)\<lparr>ticker := contract @ codes ! i @ Sprintf_d (y smod 10)\<rparr>"
    using quarter_period_spec by blast
  have c: "i < 4 \<and> 0 \<le> y \<longrightarrow>
      quarter_period contract y i (codes ! i) = spec_quarter_period contract y i"
    using quarter_period_spec_nonneg by blast
  have d: "ticker (spec_quarter_period ''Si'' 2024 0) = ''SiH4''"
    by code_simp
  show ?thesis
    using a b c d codes_def by blast
qed

theorem quarter_periods_fetched_witness:
  "(0::int) \<le> 2024
   \<and> error_of (contract_worker sample_env ''.'' 2024 2025 ''Si'' sample_fs) = None
   \<and> fetched_of (contract_worker sample_env ''.'' 2024 2025 ''Si'' sample_fs) =
       spec_quarter_periods ''Si'' 2024 2025
   \<and> spec_quarter_periods ''Si'' 2024 2025 =
       [\<lparr>ticker = ''SiH4'', startDate = time_Date 2023 12 14, endDate = time_Date 2024 3 13\<rparr>,
        \<lparr>ticker = ''SiM4'', startDate = time_Date 2024 3 14, endDate = time_Date 2024 6 19\<rparr>,
        \<lparr>ticker = ''SiU4'', startDate = time_Date 2024 6 20, endDate = time_Date 2024 9 18\<rparr>,
        \<lparr>ticker = ''SiZ4'', startDate = time_Date 2024 9 19, endDate = time_Date 2024 12 18\<rparr>]
   \<and> (0::nat) < 4
   \<and> quarter_period ''Si'' 2024 0 (codes ! 0) = spec_quarter_period ''Si'' 2024 0"
proof -
  note t = quarter_periods_fetched [of 2024 sample_env "''.''" 2025 "''Si''" sample_fs 0 2024]
  have e: "error_of (contract_worker sample_env ''.'' 2024 2025 ''Si'' sample_fs) = None"
    by code_simp
  have f: "fetched_of (contract_worker sample_env ''.'' 2024 2025 ''Si'' sample_fs) =
       spec_quarter_periods ''Si'' 2024 2025"
    using t e by simp
  have v: "spec_quarter_periods ''Si'' 2024 2025 =
       [\<lparr>ticker = ''SiH4'', startDate = time_Date 2023 12 14, endDate = time_Date 2024 3 13\<rparr>,
        \<lparr>ticker = ''SiM4'', startDate = time_Date 2024 3 14, endDate = time_Date 2024 6 19\<rparr>,
        \<lparr>ticker = ''SiU4'', startDate = time_Date 2024 6 20, endDate = time_Date 2024 9 18\<rparr>,
        \<lparr>ticker = ''SiZ4'', startDate = time_Date 2024 9 19, endDate = time_Date 2024 12 18\<rparr>]"
    by code_simp
  have h: "(0::nat) < 4 \<and> (0::int) \<le> 2024"
    by simp
  have q: "quarter_period ''Si'' 2024 0 (codes ! 0) = spec_quarter_period ''Si'' 2024 0"
    using t h by blast
  show ?thesis
    using e f v q by simp
qed

end
